theory Spec2Isabelle
  imports Complex_Main "HOL-Library.Word"
begin

section \<open>Doubles\<close>

text \<open>
  The sampler computes on IEEE doubles. A double is modelled as an exact real number or one
  of the three special values; the special values follow the IEEE rules that the program's
  control flow relies on (\<open>-INFINITY\<close> as the "impossible" log-density, \<open>std::isfinite\<close>,
  comparisons with NaN being false, \<open>0.0 / 0\<close> being NaN). Rounding, overflow to infinity
  and the sign of zero are not modelled: finite results are exact, and a non-zero finite
  number divided by zero is the infinity of the numerator's sign.
\<close>

datatype fl = Fin real | PInf | NInf | NaN

fun isfinite :: "fl \<Rightarrow> bool" where
  "isfinite (Fin x) = True"
| "isfinite PInf = False"
| "isfinite NInf = False"
| "isfinite NaN = False"

definition signed_inf :: "real \<Rightarrow> fl" where
  "signed_inf s = (if s = 0 then NaN else if 0 < s then PInf else NInf)"

instantiation fl :: "{uminus, plus, minus, times, inverse, ord}"
begin

fun uminus_fl :: "fl \<Rightarrow> fl" where
  "uminus_fl (Fin x) = Fin (- x)"
| "uminus_fl PInf = NInf"
| "uminus_fl NInf = PInf"
| "uminus_fl NaN = NaN"

fun plus_fl :: "fl \<Rightarrow> fl \<Rightarrow> fl" where
  "plus_fl (Fin x) (Fin y) = Fin (x + y)"
| "plus_fl NaN b = NaN"
| "plus_fl (Fin x) NaN = NaN"
| "plus_fl PInf NaN = NaN"
| "plus_fl NInf NaN = NaN"
| "plus_fl (Fin x) PInf = PInf"
| "plus_fl (Fin x) NInf = NInf"
| "plus_fl PInf (Fin y) = PInf"
| "plus_fl PInf PInf = PInf"
| "plus_fl PInf NInf = NaN"
| "plus_fl NInf (Fin y) = NInf"
| "plus_fl NInf PInf = NaN"
| "plus_fl NInf NInf = NInf"

definition minus_fl :: "fl \<Rightarrow> fl \<Rightarrow> fl" where
  "minus_fl (a::fl) (b::fl) = a + (- b)"

fun times_fl :: "fl \<Rightarrow> fl \<Rightarrow> fl" where
  "times_fl (Fin x) (Fin y) = Fin (x * y)"
| "times_fl NaN b = NaN"
| "times_fl (Fin x) NaN = NaN"
| "times_fl PInf NaN = NaN"
| "times_fl NInf NaN = NaN"
| "times_fl (Fin x) PInf = signed_inf (sgn x)"
| "times_fl (Fin x) NInf = signed_inf (- sgn x)"
| "times_fl PInf (Fin y) = signed_inf (sgn y)"
| "times_fl NInf (Fin y) = signed_inf (- sgn y)"
| "times_fl PInf PInf = PInf"
| "times_fl PInf NInf = NInf"
| "times_fl NInf PInf = NInf"
| "times_fl NInf NInf = PInf"

fun divide_fl :: "fl \<Rightarrow> fl \<Rightarrow> fl" where
  "divide_fl (Fin x) (Fin y) = (if y = 0 then signed_inf (sgn x) else Fin (x / y))"
| "divide_fl NaN b = NaN"
| "divide_fl (Fin x) NaN = NaN"
| "divide_fl PInf NaN = NaN"
| "divide_fl NInf NaN = NaN"
| "divide_fl (Fin x) PInf = Fin 0"
| "divide_fl (Fin x) NInf = Fin 0"
| "divide_fl PInf (Fin y) = (if y < 0 then NInf else PInf)"
| "divide_fl NInf (Fin y) = (if y < 0 then PInf else NInf)"
| "divide_fl PInf PInf = NaN"
| "divide_fl PInf NInf = NaN"
| "divide_fl NInf PInf = NaN"
| "divide_fl NInf NInf = NaN"

definition inverse_fl :: "fl \<Rightarrow> fl" where
  "inverse_fl (a::fl) = divide (Fin 1) a"

fun less_fl :: "fl \<Rightarrow> fl \<Rightarrow> bool" where
  "less_fl (Fin x) (Fin y) = (x < y)"
| "less_fl NaN b = False"
| "less_fl (Fin x) NaN = False"
| "less_fl PInf NaN = False"
| "less_fl NInf NaN = False"
| "less_fl (Fin x) PInf = True"
| "less_fl (Fin x) NInf = False"
| "less_fl PInf (Fin y) = False"
| "less_fl PInf PInf = False"
| "less_fl PInf NInf = False"
| "less_fl NInf (Fin y) = True"
| "less_fl NInf PInf = True"
| "less_fl NInf NInf = False"

definition less_eq_fl :: "fl \<Rightarrow> fl \<Rightarrow> bool" where
  "less_eq_fl (a::fl) (b::fl) = (a < b \<or> (a = b \<and> a \<noteq> NaN))"

instance ..

end

fun flog :: "fl \<Rightarrow> fl" where
  "flog (Fin x) = (if 0 < x then Fin (ln x) else if x = 0 then NInf else NaN)"
| "flog PInf = PInf"
| "flog NInf = NaN"
| "flog NaN = NaN"

fun fexp :: "fl \<Rightarrow> fl" where
  "fexp (Fin x) = Fin (exp x)"
| "fexp PInf = PInf"
| "fexp NInf = Fin 0"
| "fexp NaN = NaN"

fun fsqrt :: "fl \<Rightarrow> fl" where
  "fsqrt (Fin x) = (if 0 \<le> x then Fin (sqrt x) else NaN)"
| "fsqrt PInf = PInf"
| "fsqrt NInf = NaN"
| "fsqrt NaN = NaN"

text \<open>\<open>std::pow\<close> is only called with the base \<open>max_temp = 10.0\<close>; \<open>fpow b y\<close> is
  \<open>std::pow(b, y)\<close> for a finite base \<open>b > 1\<close>.\<close>

fun fpow :: "real \<Rightarrow> fl \<Rightarrow> fl" where
  "fpow b (Fin y) = Fin (b powr y)"
| "fpow b PInf = PInf"
| "fpow b NInf = Fin 0"
| "fpow b NaN = NaN"

text \<open>\<open>std::max(a, b)\<close> is \<open>(a < b) ? b : a\<close> and \<open>std::min(a, b)\<close> is \<open>(b < a) ? b : a\<close>.\<close>

definition std_max :: "fl \<Rightarrow> fl \<Rightarrow> fl" where
  "std_max a b = (if a < b then b else a)"

definition std_min :: "fl \<Rightarrow> fl \<Rightarrow> fl" where
  "std_min a b = (if b < a then b else a)"

definition of_int32 :: "int \<Rightarrow> fl" where
  "of_int32 i = Fin (of_int i)"

text \<open>A \<open>size_t\<close> is an unsigned 32-bit word; \<open>vec_size\<close> is \<open>size()\<close> of a vector.\<close>

definition of_size :: "32 word \<Rightarrow> fl" where
  "of_size n = Fin (of_nat (unat n))"

definition vec_size :: "'a list \<Rightarrow> 32 word" where
  "vec_size v = word_of_nat (length v)"

section \<open>Failures and the standard library\<close>

text \<open>
  A call of the program either returns, or reads a vector out of range (undefined behaviour
  in C++), or asks a vector for more elements than it can hold (\<open>std::length_error\<close>), or
  never leaves a reflection loop.
\<close>

datatype error = OutOfBounds | LengthError | NonTermination

definition bind_e :: "error + 'a \<Rightarrow> ('a \<Rightarrow> error + 'b) \<Rightarrow> error + 'b" where
  "bind_e m f = (case m of Inl e \<Rightarrow> Inl e | Inr x \<Rightarrow> f x)"

definition vec_at :: "'a list \<Rightarrow> int \<Rightarrow> error + 'a" where
  "vec_at xs i = (if 0 \<le> i \<and> nat i < length xs then Inr (xs ! nat i) else Inl OutOfBounds)"

text \<open>
  The generator \<open>std::mt19937\<close>, the three distributions and \<open>std::erfc\<close> belong to the C++
  standard library, not to the repository: they are parameters of the model. \<open>'g\<close> is the
  state of the global generator \<open>rng\<close>, \<open>'n\<close> the state a \<open>std::normal_distribution\<close> object
  keeps between draws. \<open>uniform_real a b\<close> and \<open>uniform_int a b\<close> are one draw of a
  distribution object constructed with the bounds \<open>a\<close> and \<open>b\<close>; these objects keep no state.
\<close>

record ('g, 'n) stdlib =
  erfc :: "real \<Rightarrow> real"
  mt_seed :: "32 word \<Rightarrow> 'g"
  normal_new :: "'n"
  normal_draw :: "'n \<Rightarrow> 'g \<Rightarrow> real \<times> 'n \<times> 'g"
  uniform_real :: "real \<Rightarrow> real \<Rightarrow> 'g \<Rightarrow> real \<times> 'g"
  uniform_int :: "int \<Rightarrow> int \<Rightarrow> 'g \<Rightarrow> int \<times> 'g"

text \<open>\<open>set_random_seed\<close>: \<open>rng.seed(seed)\<close> replaces the whole state of the generator.\<close>

definition set_random_seed :: "('g, 'n) stdlib \<Rightarrow> 32 word \<Rightarrow> 'g \<Rightarrow> 'g" where
  "set_random_seed L seed g = mt_seed L seed"

fun ferfc :: "('g, 'n) stdlib \<Rightarrow> fl \<Rightarrow> fl" where
  "ferfc L (Fin x) = Fin (erfc L x)"
| "ferfc L PInf = Fin 0"
| "ferfc L NInf = Fin 2"
| "ferfc L NaN = NaN"

section \<open>Math kernel\<close>

definition sigmoid :: "fl \<Rightarrow> fl" where
  "sigmoid x = Fin 1 / (Fin 1 + fexp (- x))"

definition log_beta_pdf :: "fl \<Rightarrow> fl \<Rightarrow> fl \<Rightarrow> fl" where
  "log_beta_pdf x alpha beta =
     (if x \<le> Fin 0 \<or> Fin 1 \<le> x then NInf
      else (alpha - Fin 1) * flog x + (beta - Fin 1) * flog (Fin 1 - x))"

definition log_normal_pdf :: "fl \<Rightarrow> fl \<Rightarrow> fl \<Rightarrow> fl" where
  "log_normal_pdf x mean sd =
     (let z = (x - mean) / sd
      in Fin (- 0.5) * z * z - flog sd - Fin 0.5 * flog (Fin (2 * pi)))"

definition log_truncated_normal_pdf :: "('g, 'n) stdlib \<Rightarrow> fl \<Rightarrow> fl \<Rightarrow> fl \<Rightarrow> fl" where
  "log_truncated_normal_pdf L x mean sd =
     (if x \<le> Fin 0 then NInf
      else let z = (x - mean) / sd;
               log_normalization =
                 flog (Fin 1 - Fin 0.5 * ferfc L ((- mean) / (sd * fsqrt (Fin 2))))
           in Fin (- 0.5) * z * z - flog sd - Fin 0.5 * flog (Fin (2 * pi))
              - log_normalization)"

definition log_bernoulli_pmf :: "int \<Rightarrow> fl \<Rightarrow> fl" where
  "log_bernoulli_pmf y p =
     (if p \<le> Fin 0 \<or> Fin 1 \<le> p then NInf
      else if y = 1 then flog p else flog (Fin 1 - p))"

record Params =
  floor_p :: fl
  ceiling_p :: fl
  ec50 :: fl
  slope :: fl

record Priors =
  floor_alpha :: fl
  floor_beta :: fl
  ceiling_alpha :: fl
  ceiling_beta :: fl
  ec50_mean :: fl
  ec50_sd :: fl
  slope_mean :: fl
  slope_sd :: fl

text \<open>The default constructor \<open>Priors()\<close>.\<close>

definition Priors_default :: Priors where
  "Priors_default =
     \<lparr>floor_alpha = Fin 1, floor_beta = Fin 1, ceiling_alpha = Fin 1, ceiling_beta = Fin 1,
      ec50_mean = Fin 0, ec50_sd = Fin 1, slope_mean = Fin 1, slope_sd = Fin 1\<rparr>"

text \<open>
  \<open>Data\<close> keeps the two vectors and the count \<open>N\<close> apart: the binding exposes \<open>N\<close> as a
  property, and nothing ties it to the vectors' lengths after construction.
\<close>

record Data =
  titre :: "fl list"
  infected :: "int list"
  N :: int

definition Data_default :: Data where
  "Data_default = \<lparr>titre = [], infected = [], N = 0\<rparr>"

definition Data_of :: "fl list \<Rightarrow> int list \<Rightarrow> Data" where
  "Data_of t i = \<lparr>titre = t, infected = i, N = int (length t)\<rparr>"

definition log_prior :: "('g, 'n) stdlib \<Rightarrow> Params \<Rightarrow> Priors \<Rightarrow> fl" where
  "log_prior L p priors =
     (let lp = Fin 0;
          lp = lp + log_beta_pdf (floor_p p) (floor_alpha priors) (floor_beta priors);
          lp = lp + log_beta_pdf (ceiling_p p) (ceiling_alpha priors) (ceiling_beta priors);
          lp = lp + log_normal_pdf (ec50 p) (ec50_mean priors) (ec50_sd priors);
          lp = lp + log_truncated_normal_pdf L (slope p) (slope_mean priors) (slope_sd priors)
      in lp)"

text \<open>The model's probability of infection at one titre.\<close>

definition prob_infection :: "Params \<Rightarrow> fl \<Rightarrow> fl" where
  "prob_infection p t =
     ceiling_p p * (sigmoid (- slope p * (t - ec50 p)) * (Fin 1 - floor_p p) + floor_p p)"

text \<open>The loop of \<open>log_likelihood\<close>, from index \<open>i\<close> with the running sum \<open>ll\<close>.\<close>

function log_likelihood_loop :: "Params \<Rightarrow> Data \<Rightarrow> int \<Rightarrow> fl \<Rightarrow> error + fl" where
  "log_likelihood_loop p d i ll =
     (if i < N d then
        bind_e (vec_at (titre d) i) (\<lambda>t.
        bind_e (vec_at (infected d) i) (\<lambda>y.
          let ll' = ll + log_bernoulli_pmf y (prob_infection p t)
          in if \<not> isfinite ll' then Inr NInf else log_likelihood_loop p d (i + 1) ll'))
      else Inr ll)"
  by pat_completeness auto
termination
  by (relation "measure (\<lambda>(p, d, i, ll). nat (N d - i))") auto

declare log_likelihood_loop.simps [simp del]

definition log_likelihood :: "Params \<Rightarrow> Data \<Rightarrow> error + fl" where
  "log_likelihood p d = log_likelihood_loop p d 0 (Fin 0)"

definition log_posterior_tempered ::
  "('g, 'n) stdlib \<Rightarrow> Params \<Rightarrow> Data \<Rightarrow> Priors \<Rightarrow> fl \<Rightarrow> error + fl" where
  "log_posterior_tempered L p d priors temperature =
     (let lp = log_prior L p priors
      in if \<not> isfinite lp then Inr NInf
         else bind_e (log_likelihood p d) (\<lambda>ll.
              if \<not> isfinite ll then Inr NInf
              else Inr (lp + ll / temperature)))"

section \<open>Proposal kernel\<close>

record 'n ProposalDistribution =
  step_sizes :: "fl list"
  normal_dist :: 'n

definition ProposalDistribution_new :: "('g, 'n) stdlib \<Rightarrow> 'n ProposalDistribution" where
  "ProposalDistribution_new L = \<lparr>step_sizes = replicate 4 (Fin 0.1), normal_dist = normal_new L\<rparr>"

definition adapt :: "'n ProposalDistribution \<Rightarrow> int \<Rightarrow> fl \<Rightarrow> 'n ProposalDistribution" where
  "adapt pd iteration acceptance_rate =
     (let target = Fin 0.234;
          scale = (if target < acceptance_rate then Fin 1.01 else Fin 0.99)
      in if iteration mod 50 = 0
         then pd\<lparr>step_sizes :=
                map (\<lambda>s. std_max (Fin 0.001) (std_min (s * scale) (Fin 1))) (step_sizes pd)\<rparr>
         else pd)"

text \<open>One pass through the body of the reflection loop of \<open>floor\<close> and \<open>ceiling\<close>: two
  \<open>if\<close> statements in sequence, the second reading what the first wrote.\<close>

definition reflect_unit_body :: "fl \<Rightarrow> fl" where
  "reflect_unit_body x =
     (let x = (if x \<le> Fin 0 then - x else x)
      in if Fin 1 \<le> x then Fin 2 - x else x)"

text \<open>The two \<open>while\<close> loops. They may run forever, so the result is an option
  and \<open>None\<close> is "never returns".\<close>

partial_function (option) reflect_unit :: "fl \<Rightarrow> fl option" where
  "reflect_unit x =
     (if x \<le> Fin 0 \<or> Fin 1 \<le> x then reflect_unit (reflect_unit_body x) else Some x)"

partial_function (option) reflect_zero :: "fl \<Rightarrow> fl option" where
  "reflect_zero x = (if x \<le> Fin 0 then reflect_zero (- x) else Some x)"

definition loop_result :: "'a option \<Rightarrow> error + 'a" where
  "loop_result r = (case r of None \<Rightarrow> Inl NonTermination | Some x \<Rightarrow> Inr x)"

definition propose ::
  "('g, 'n) stdlib \<Rightarrow> 'n ProposalDistribution \<Rightarrow> Params \<Rightarrow> 'g
     \<Rightarrow> error + (Params \<times> 'n ProposalDistribution \<times> 'g)" where
  "propose L pd cur g =
     bind_e (vec_at (step_sizes pd) 0) (\<lambda>s0.
     case normal_draw L (normal_dist pd) g of (z0, n1, g1) \<Rightarrow>
     bind_e (loop_result (reflect_unit (floor_p cur + s0 * Fin z0))) (\<lambda>floor_prop.
     bind_e (vec_at (step_sizes pd) 1) (\<lambda>s1.
     case normal_draw L n1 g1 of (z1, n2, g2) \<Rightarrow>
     bind_e (loop_result (reflect_unit (ceiling_p cur + s1 * Fin z1))) (\<lambda>ceiling_prop.
     bind_e (vec_at (step_sizes pd) 2) (\<lambda>s2.
     case normal_draw L n2 g2 of (z2, n3, g3) \<Rightarrow>
     let ec50_prop = ec50 cur + s2 * Fin z2 in
     bind_e (vec_at (step_sizes pd) 3) (\<lambda>s3.
     case normal_draw L n3 g3 of (z3, n4, g4) \<Rightarrow>
     bind_e (loop_result (reflect_zero (slope cur + s3 * Fin z3))) (\<lambda>slope_prop.
     Inr (\<lparr>floor_p = floor_prop, ceiling_p = ceiling_prop, ec50 = ec50_prop,
           slope = slope_prop\<rparr>,
          pd\<lparr>normal_dist := n4\<rparr>, g4))))))))"

section \<open>Single-temperature chain\<close>

text \<open>The counters are C++ \<open>int\<close>s; they are modelled as unbounded integers (a run of
  \<open>2^31\<close> steps, where they would overflow, is out of reach).\<close>

record 'n MCMCChain =
  current :: Params
  current_log_posterior :: fl
  temperature :: fl
  proposal :: "'n ProposalDistribution"
  accepted :: int
  total :: int
  samples :: "Params list"

definition MCMCChain_new ::
  "('g, 'n) stdlib \<Rightarrow> fl \<Rightarrow> Params \<Rightarrow> Data \<Rightarrow> Priors \<Rightarrow> error + 'n MCMCChain" where
  "MCMCChain_new L temp init d priors =
     bind_e (log_posterior_tempered L init d priors temp) (\<lambda>lp.
     Inr \<lparr>current = init, current_log_posterior = lp, temperature = temp,
          proposal = ProposalDistribution_new L, accepted = 0, total = 0, samples = []\<rparr>)"

definition step ::
  "('g, 'n) stdlib \<Rightarrow> 'n MCMCChain \<Rightarrow> Data \<Rightarrow> Priors \<Rightarrow> 'g \<Rightarrow> error + ('n MCMCChain \<times> 'g)" where
  "step L c d priors g =
     bind_e (propose L (proposal c) (current c) g) (\<lambda>(proposed, pd, g1).
     bind_e (log_posterior_tempered L proposed d priors (temperature c))
       (\<lambda>proposed_log_posterior.
     let log_alpha = proposed_log_posterior - current_log_posterior c;
         total' = total c + 1
     in case uniform_real L 0 1 g1 of (u, g2) \<Rightarrow>
        let acc = flog (Fin u) < log_alpha;
            current' = (if acc then proposed else current c);
            lp' = (if acc then proposed_log_posterior else current_log_posterior c);
            accepted' = (if acc then accepted c + 1 else accepted c);
            pd' = (if total' mod 50 = 0
                   then adapt pd total' (of_int32 accepted' / of_int32 total')
                   else pd)
        in Inr (c\<lparr>current := current', current_log_posterior := lp', accepted := accepted',
                  total := total', samples := samples c @ [current'], proposal := pd'\<rparr>,
                g2)))"

definition get_log_posterior :: "'n MCMCChain \<Rightarrow> fl" where
  "get_log_posterior c = current_log_posterior c"

definition get_current :: "'n MCMCChain \<Rightarrow> Params" where
  "get_current c = current c"

definition set_current ::
  "('g, 'n) stdlib \<Rightarrow> 'n MCMCChain \<Rightarrow> Params \<Rightarrow> Data \<Rightarrow> Priors \<Rightarrow> error + 'n MCMCChain" where
  "set_current L c p d priors =
     bind_e (log_posterior_tempered L p d priors (temperature c)) (\<lambda>lp.
     Inr (c\<lparr>current := p, current_log_posterior := lp\<rparr>))"

definition get_acceptance_rate :: "'n MCMCChain \<Rightarrow> fl" where
  "get_acceptance_rate c =
     (if 0 < total c then of_int32 (accepted c) / of_int32 (total c) else Fin 0)"

section \<open>Parallel-tempering ensemble\<close>

record 'n ParallelTemperingMCMC =
  chains :: "'n MCMCChain list"
  temperatures :: "fl list"
  data :: Data
  priors :: Priors
  num_chains :: int
  swap_accepted :: int
  swap_total :: int

text \<open>
  The module is built for WebAssembly: \<open>size_t\<close> has 32 bits, and a \<open>std::vector<double>\<close>
  holds at most \<open>max_size() = (2^32 - 1) div 8\<close> elements. \<open>temperatures.resize(num_chains)\<close>
  converts the \<open>int\<close> to \<open>size_t\<close> and throws \<open>std::length_error\<close> beyond that bound; this is
  the only way the constructor fails. Running out of memory below the bound is not modelled.
\<close>

definition to_size :: "int \<Rightarrow> nat" where
  "to_size i = unat (word_of_int i :: 32 word)"

definition vector_double_max_size :: nat where
  "vector_double_max_size = 536870911"

text \<open>The entry the first loop of the constructor writes at index \<open>i\<close>.\<close>

definition ladder_entry :: "int \<Rightarrow> int \<Rightarrow> fl" where
  "ladder_entry n_chains i = fpow 10 (of_int32 i / of_int32 (n_chains - 1))"

text \<open>
  The second loop of the constructor, over the ladder: four draws for the starting point, in
  the order the arguments of \<open>Params init(...)\<close> are written (the order the compiler of the
  module evaluates them in), then the chain is appended.
\<close>

fun init_chains ::
  "('g, 'n) stdlib \<Rightarrow> Data \<Rightarrow> Priors \<Rightarrow> fl list \<Rightarrow> 'g \<Rightarrow> error + ('n MCMCChain list \<times> 'g)" where
  "init_chains L d p [] g = Inr ([], g)"
| "init_chains L d p (t # ts) g =
     (case uniform_real L 0.01 0.5 g of (f, g1) \<Rightarrow>
      case uniform_real L 0.1 0.9 g1 of (c, g2) \<Rightarrow>
      case uniform_real L (- 2) 2 g2 of (e, g3) \<Rightarrow>
      case uniform_real L 0.1 3 g3 of (s, g4) \<Rightarrow>
      bind_e (MCMCChain_new L t
                \<lparr>floor_p = Fin f, ceiling_p = Fin c, ec50 = Fin e, slope = Fin s\<rparr> d p) (\<lambda>ch.
      bind_e (init_chains L d p ts g4) (\<lambda>(chs, g').
      Inr (ch # chs, g'))))"

definition construct ::
  "('g, 'n) stdlib \<Rightarrow> int \<Rightarrow> Data \<Rightarrow> Priors \<Rightarrow> 'g \<Rightarrow> error + ('n ParallelTemperingMCMC \<times> 'g)" where
  "construct L n_chains d p g =
     (if vector_double_max_size < to_size n_chains then Inl LengthError
      else let temps = map (ladder_entry n_chains) [0..n_chains - 1]
           in bind_e (init_chains L d p temps g) (\<lambda>(chs, g').
              Inr (\<lparr>chains = chs, temperatures = temps, data = d, priors = p,
                    num_chains = n_chains, swap_accepted = 0, swap_total = 0\<rparr>, g')))"

text \<open>\<open>for (auto& chain : chains) chain.step(data, priors)\<close>.\<close>

fun step_all ::
  "('g, 'n) stdlib \<Rightarrow> Data \<Rightarrow> Priors \<Rightarrow> 'n MCMCChain list \<Rightarrow> 'g
     \<Rightarrow> error + ('n MCMCChain list \<times> 'g)" where
  "step_all L d p [] g = Inr ([], g)"
| "step_all L d p (c # cs) g =
     bind_e (step L c d p g) (\<lambda>(c', g1).
     bind_e (step_all L d p cs g1) (\<lambda>(cs', g2).
     Inr (c' # cs', g2)))"

text \<open>The body of \<open>if (iter % 10 == 0 && num_chains > 1)\<close>.\<close>

definition attempt_swap ::
  "('g, 'n) stdlib \<Rightarrow> 'n ParallelTemperingMCMC \<Rightarrow> 'g
     \<Rightarrow> error + ('n ParallelTemperingMCMC \<times> 'g)" where
  "attempt_swap L e g =
     (case uniform_int L 0 (num_chains e - 2) g of (i, g1) \<Rightarrow>
      let j = i + 1 in
      bind_e (vec_at (chains e) i) (\<lambda>ci.
      bind_e (vec_at (chains e) j) (\<lambda>cj.
      bind_e (vec_at (temperatures e) j) (\<lambda>tj.
      bind_e (vec_at (temperatures e) i) (\<lambda>ti.
      let log_alpha = (get_log_posterior ci - get_log_posterior cj)
                        * (Fin 1 / tj - Fin 1 / ti);
          e1 = e\<lparr>swap_total := swap_total e + 1\<rparr>
      in case uniform_real L 0 1 g1 of (u, g2) \<Rightarrow>
         if flog (Fin u) < log_alpha then
           let temp_params = get_current ci in
           bind_e (set_current L ci (get_current cj) (data e) (priors e)) (\<lambda>ci'.
           bind_e (set_current L cj temp_params (data e) (priors e)) (\<lambda>cj'.
           Inr (e1\<lparr>chains := (chains e)[nat i := ci', nat j := cj'],
                    swap_accepted := swap_accepted e + 1\<rparr>, g2)))
         else Inr (e1, g2))))))"

text \<open>One pass through the body of the loop of \<open>run\<close>, at loop index \<open>iter\<close>.\<close>

definition run_iteration ::
  "('g, 'n) stdlib \<Rightarrow> int \<Rightarrow> 'n ParallelTemperingMCMC \<Rightarrow> 'g
     \<Rightarrow> error + ('n ParallelTemperingMCMC \<times> 'g)" where
  "run_iteration L iter e g =
     bind_e (step_all L (data e) (priors e) (chains e) g) (\<lambda>(chs, g1).
     let e1 = e\<lparr>chains := chs\<rparr>
     in if iter mod 10 = 0 \<and> 1 < num_chains e then attempt_swap L e1 g1 else Inr (e1, g1))"

function run_loop ::
  "('g, 'n) stdlib \<Rightarrow> int \<Rightarrow> int \<Rightarrow> 'n ParallelTemperingMCMC \<Rightarrow> 'g
     \<Rightarrow> error + ('n ParallelTemperingMCMC \<times> 'g)" where
  "run_loop L n_iterations iter e g =
     (if iter < n_iterations
      then bind_e (run_iteration L iter e g) (\<lambda>(e', g').
             run_loop L n_iterations (iter + 1) e' g')
      else Inr (e, g))"
  by pat_completeness auto
termination
  by (relation "measure (\<lambda>(L, n, iter, e, g). nat (n - iter))") auto

declare run_loop.simps [simp del]

definition run ::
  "('g, 'n) stdlib \<Rightarrow> int \<Rightarrow> 'n ParallelTemperingMCMC \<Rightarrow> 'g
     \<Rightarrow> error + ('n ParallelTemperingMCMC \<times> 'g)" where
  "run L n_iterations e g = run_loop L n_iterations 0 e g"

definition get_samples :: "'n ParallelTemperingMCMC \<Rightarrow> error + Params list" where
  "get_samples e = bind_e (vec_at (chains e) 0) (\<lambda>c. Inr (samples c))"

definition get_swap_rate :: "'n ParallelTemperingMCMC \<Rightarrow> fl" where
  "get_swap_rate e =
     (if 0 < swap_total e then of_int32 (swap_accepted e) / of_int32 (swap_total e) else Fin 0)"

definition get_acceptance_rates :: "'n ParallelTemperingMCMC \<Rightarrow> fl list" where
  "get_acceptance_rates e = map get_acceptance_rate (chains e)"

section \<open>Diagnostics\<close>

text \<open>
  A vector holds fewer than \<open>2^31\<close> elements, so an \<open>int\<close> index converted to \<open>size_t\<close> is in
  range exactly when it is non-negative and below the size: \<open>vec_at\<close> is \<open>samples[i]\<close> for an
  \<open>int i\<close>, and the unsigned comparison \<open>i < samples.size()\<close> is \<open>0 \<le> i \<and> i < size\<close>.
  The loop counters are unbounded integers.
\<close>

text \<open>\<open>for (int i = lo; i < hi; ++i) out.push_back(samples[i])\<close>\<close>

function collect_range :: "'a list \<Rightarrow> int \<Rightarrow> int \<Rightarrow> 'a list \<Rightarrow> error + 'a list" where
  "collect_range s i hi acc =
     (if i < hi then bind_e (vec_at s i) (\<lambda>x. collect_range s (i + 1) hi (acc @ [x]))
      else Inr acc)"
  by pat_completeness auto
termination
  by (relation "measure (\<lambda>(s, i, hi, acc). nat (hi - i))") auto

declare collect_range.simps [simp del]

text \<open>\<open>for (int i = lo; i < samples.size(); ++i) out.push_back(samples[i])\<close>\<close>

function collect_to_end :: "'a list \<Rightarrow> int \<Rightarrow> 'a list \<Rightarrow> 'a list" where
  "collect_to_end s i acc =
     (if 0 \<le> i \<and> nat i < length s then collect_to_end s (i + 1) (acc @ [s ! nat i])
      else acc)"
  by pat_completeness auto
termination
  by (relation "measure (\<lambda>(s, i, acc). length s - nat i)") auto

declare collect_to_end.simps [simp del]

definition accumulate :: "fl list \<Rightarrow> fl" where
  "accumulate v = foldl (+) (Fin 0) v"

definition compute_var :: "fl list \<Rightarrow> fl \<Rightarrow> fl" where
  "compute_var v m =
     (let sum = foldl (\<lambda>sum x. sum + (x - m) * (x - m)) (Fin 0) v
      in sum / of_size (vec_size v - 1))"

definition compute_rhat_param :: "fl list \<Rightarrow> fl list \<Rightarrow> fl" where
  "compute_rhat_param c1 c2 =
     (let mean1 = accumulate c1 / of_size (vec_size c1);
          mean2 = accumulate c2 / of_size (vec_size c2);
          overall_mean = (mean1 + mean2) / Fin 2;
          var1 = compute_var c1 mean1;
          var2 = compute_var c2 mean2;
          W = (var1 + var2) / Fin 2;
          B = of_size (vec_size c1)
                * ((mean1 - overall_mean) * (mean1 - overall_mean)
                   + (mean2 - overall_mean) * (mean2 - overall_mean));
          var_plus = ((of_size (vec_size c1) - Fin 1) / of_size (vec_size c1)) * W
                       + (Fin 1 / of_size (vec_size c1)) * B
      in fsqrt (var_plus / W))"

text \<open>\<open>int n = samples.size() - warmup\<close>: the subtraction is done on \<open>size_t\<close> and the
  result converted back to \<open>int\<close>.\<close>

definition post_warmup :: "'a list \<Rightarrow> 32 word \<Rightarrow> int" where
  "post_warmup s warmup = sint (vec_size s - warmup)"

definition compute_rhat :: "'n ParallelTemperingMCMC \<Rightarrow> 32 word \<Rightarrow> error + fl list" where
  "compute_rhat e warmup =
     bind_e (vec_at (chains e) 0) (\<lambda>c0.
     let s = samples c0;
         n = post_warmup s warmup
     in if n < 100 then Inr [Fin 1, Fin 1, Fin 1, Fin 1]
        else let half = n div 2 in
          bind_e (collect_range s (sint warmup) (sint warmup + half) []) (\<lambda>chain1.
          let chain2 = collect_to_end s (sint warmup + half) []
          in Inr [compute_rhat_param (map floor_p chain1) (map floor_p chain2),
                  compute_rhat_param (map ceiling_p chain1) (map ceiling_p chain2),
                  compute_rhat_param (map ec50 chain1) (map ec50 chain2),
                  compute_rhat_param (map slope chain1) (map slope chain2)]))"

text \<open>The autocorrelation loop of \<open>compute_ess_param\<close>, with its \<open>break\<close>.\<close>

function acf_loop :: "fl list \<Rightarrow> fl \<Rightarrow> fl \<Rightarrow> int \<Rightarrow> fl list \<Rightarrow> fl list" where
  "acf_loop x mean var lag acf =
     (if lag < min 100 (sint (vec_size x) div 2) then
        let sum = foldl (\<lambda>sum i. sum + (x ! i - mean) * (x ! (i - nat lag) - mean)) (Fin 0)
                    [nat lag..<length x];
            acf' = acf @ [sum / (of_size (vec_size x - word_of_int lag) * var)]
        in if last acf' < Fin 0 then acf' else acf_loop x mean var (lag + 1) acf'
      else acf)"
  by pat_completeness auto
termination
  by (relation "measure (\<lambda>(x, mean, var, lag, acf). nat (100 - lag))") auto

declare acf_loop.simps [simp del]

definition compute_ess_param :: "fl list \<Rightarrow> fl" where
  "compute_ess_param x =
     (let mean = accumulate x / of_size (vec_size x);
          var = foldl (\<lambda>var v. var + (v - mean) * (v - mean)) (Fin 0) x;
          var = var / of_size (vec_size x - 1);
          acf = acf_loop x mean var 1 [];
          sum_acf = accumulate acf
      in of_size (vec_size x) / (Fin 1 + Fin 2 * sum_acf))"

definition compute_ess :: "'n ParallelTemperingMCMC \<Rightarrow> 32 word \<Rightarrow> error + fl list" where
  "compute_ess e warmup =
     bind_e (vec_at (chains e) 0) (\<lambda>c0.
     let s = samples c0;
         n = post_warmup s warmup
     in if n < 100 then Inr [Fin 0, Fin 0, Fin 0, Fin 0]
        else let xs = collect_to_end s (sint warmup) []
          in Inr [compute_ess_param (map floor_p xs), compute_ess_param (map ceiling_p xs),
                  compute_ess_param (map ec50 xs), compute_ess_param (map slope xs)])"

section \<open>Well-formed inputs and the specification's formulas\<close>

text \<open>The count \<open>N\<close> does not run past either vector: the reads of \<open>log_likelihood\<close> are in
  range.\<close>

definition data_ok :: "Data \<Rightarrow> bool" where
  "data_ok d = (N d \<le> int (length (titre d)) \<and> N d \<le> int (length (infected d)))"

text \<open>
  The domain of a parameter vector, the invariant of a chain (its current state is in the
  domain, with a finite slope, and its step sizes are finite), and the contract of
  \<open>std::uniform_real_distribution\<close>: a draw from \<open>[a, b)\<close> lies in \<open>[a, b)\<close>.
\<close>

definition in_domain :: "Params \<Rightarrow> bool" where
  "in_domain p =
     (Fin 0 < floor_p p \<and> floor_p p < Fin 1 \<and> Fin 0 < ceiling_p p \<and> ceiling_p p < Fin 1
      \<and> Fin 0 < slope p \<and> isfinite (ec50 p))"

definition chain_inv :: "'n MCMCChain \<Rightarrow> bool" where
  "chain_inv c =
     (in_domain (current c) \<and> isfinite (slope (current c))
      \<and> list_all isfinite (step_sizes (proposal c)))"

definition uniform_real_ok :: "('g, 'n) stdlib \<Rightarrow> bool" where
  "uniform_real_ok L =
     (\<forall>a b g. a < b \<longrightarrow> a \<le> fst (uniform_real L a b g) \<and> fst (uniform_real L a b g) < b)"

text \<open>
  The log-likelihood in the specification's words: the per-observation Bernoulli log-pmfs,
  their partial sums from the left, and the total, replaced by \<open>-\<infinity>\<close> when some partial sum
  is not finite.
\<close>

definition bernoulli_terms :: "Params \<Rightarrow> Data \<Rightarrow> fl list" where
  "bernoulli_terms p d =
     map (\<lambda>i. log_bernoulli_pmf (infected d ! i) (prob_infection p (titre d ! i)))
       [0..<nat (N d)]"

definition partial_sum :: "fl list \<Rightarrow> nat \<Rightarrow> fl" where
  "partial_sum ts k = foldl (+) (Fin 0) (take k ts)"

definition log_likelihood_spec :: "Params \<Rightarrow> Data \<Rightarrow> fl" where
  "log_likelihood_spec p d =
     (let ts = bernoulli_terms p d
      in if list_all (\<lambda>k. isfinite (partial_sum ts k)) [0..<Suc (length ts)]
         then partial_sum ts (length ts) else NInf)"

text \<open>
  The split-\<open>R\<close> statistic of one parameter in the specification's words, for the
  post-warm-up values \<open>x\<close>: halves of sizes \<open>h = n div 2\<close> and \<open>n - h\<close>, their means and
  their sums of squared deviations, \<open>W\<close>, \<open>B\<close>, the variance estimate \<open>V\<close> and \<open>sqrt (V / W)\<close>.
  The divisor of the second half's variance is a parameter: the specification divides by
  \<open>h - 1\<close> (\<open>split_rhat_spec\<close>), the sample variance of a half of \<open>n - h\<close> values divides
  by \<open>n - h - 1\<close> (\<open>split_rhat_amended\<close>).
\<close>

definition mean_fl :: "fl list \<Rightarrow> fl" where
  "mean_fl xs = foldl (+) (Fin 0) xs / Fin (of_nat (length xs))"

definition sq_dev :: "fl list \<Rightarrow> fl \<Rightarrow> fl" where
  "sq_dev xs m = foldl (\<lambda>s x. s + (x - m) * (x - m)) (Fin 0) xs"

definition split_rhat_formula :: "nat \<Rightarrow> fl list \<Rightarrow> fl" where
  "split_rhat_formula d2 x =
     (let n = length x;
          h = n div 2;
          x1 = take h x;
          x2 = drop h x;
          mu1 = mean_fl x1;
          mu2 = mean_fl x2;
          v1 = sq_dev x1 mu1 / Fin (of_nat (h - 1));
          v2 = sq_dev x2 mu2 / Fin (of_nat d2);
          W = (v1 + v2) / Fin 2;
          mu = (mu1 + mu2) / Fin 2;
          B = Fin (of_nat h) * ((mu1 - mu) * (mu1 - mu) + (mu2 - mu) * (mu2 - mu));
          V = (Fin (of_nat (h - 1)) / Fin (of_nat h)) * W + (Fin 1 / Fin (of_nat h)) * B
      in fsqrt (V / W))"

definition split_rhat_spec :: "fl list \<Rightarrow> fl" where
  "split_rhat_spec x = split_rhat_formula (length x div 2 - 1) x"

definition split_rhat_amended :: "fl list \<Rightarrow> fl" where
  "split_rhat_amended x = split_rhat_formula (length x - length x div 2 - 1) x"

section \<open>Instances\<close>

text \<open>
  A small deterministic standard library at which the theorems below are instantiated. The
  generator is a counter. A draw from the unit interval (the acceptance tests) returns \<open>0\<close>,
  so that the tests see \<open>log 0 = -\<infinity>\<close>; a draw from another interval returns the point a
  quarter, a half or none of the way into it, by the counter modulo 3. A normal draw
  alternates between \<open>1/2\<close> and \<open>-1/4\<close>, an integer draw returns the lower bound, and
  \<open>erfc\<close> is exact at \<open>0\<close> and at the infinities and a step in between.
  \<open>boundary_stdlib\<close> differs in the normal draw, which is always \<open>-5\<close>.
\<close>

definition toy_stdlib :: "(nat, unit) stdlib" where
  "toy_stdlib =
     \<lparr>erfc = (\<lambda>x. if x < 0 then 2 else if x = 0 then 1 else 0),
      mt_seed = unat,
      normal_new = (),
      normal_draw = (\<lambda>n g. (if even g then 1 / 2 else - 1 / 4, n, g + 1)),
      uniform_real = (\<lambda>a b g. (if a = 0 then 0 else a + (b - a) * of_nat (g mod 3) / 4, g + 1)),
      uniform_int = (\<lambda>a b g. (a, g + 1))\<rparr>"

definition boundary_stdlib :: "(nat, unit) stdlib" where
  "boundary_stdlib = toy_stdlib\<lparr>normal_draw := (\<lambda>n g. (- 5, n, g + 1))\<rparr>"

text \<open>The default priors with the slope prior centred at \<open>0\<close>, and the two-point dataset of
  the specification's first scenario.\<close>

definition priors0 :: Priors where
  "priors0 = Priors_default\<lparr>slope_mean := Fin 0\<rparr>"

text \<open>Priors that violate every constraint of the data model.\<close>

definition invalid_priors :: Priors where
  "invalid_priors =
     \<lparr>floor_alpha = Fin 0, floor_beta = Fin (- 1), ceiling_alpha = Fin 0,
      ceiling_beta = Fin (- 1), ec50_mean = Fin 0, ec50_sd = Fin 0, slope_mean = Fin 1,
      slope_sd = Fin (- 1)\<rparr>"

definition two_points :: Data where
  "two_points = Data_of [Fin (- 5), Fin 5] [1, 0]"

text \<open>A parameter vector, a chain and a one-chain ensemble holding a given trace: the
  inputs of the diagnostics at which the theorems below are instantiated.\<close>

definition theta0 :: Params where
  "theta0 = \<lparr>floor_p = Fin 0.25, ceiling_p = Fin 0.5, ec50 = Fin 0, slope = Fin 1\<rparr>"

definition chain_with :: "Params list \<Rightarrow> unit MCMCChain" where
  "chain_with tr =
     \<lparr>current = theta0, current_log_posterior = Fin 0, temperature = Fin 1,
      proposal = \<lparr>step_sizes = replicate 4 (Fin 0.1), normal_dist = ()\<rparr>,
      accepted = 0, total = int (length tr), samples = tr\<rparr>"

definition ensemble_with :: "Params list \<Rightarrow> unit ParallelTemperingMCMC" where
  "ensemble_with tr =
     \<lparr>chains = [chain_with tr], temperatures = [Fin 1], data = Data_default,
      priors = Priors_default, num_chains = 1, swap_accepted = 0, swap_total = 0\<rparr>"

text \<open>A trace of 101 samples whose \<open>ec50\<close> is \<open>0\<close> fifty times, then \<open>1\<close> and \<open>3\<close>
  twenty-five times each, then \<open>2\<close>; the other parameters stay at \<open>theta0\<close>.\<close>

definition rhat_trace :: "Params list" where
  "rhat_trace =
     map (\<lambda>v. theta0\<lparr>ec50 := Fin v\<rparr>) (replicate 50 0 @ replicate 25 1 @ replicate 25 3 @ [2])"

text \<open>
  An ensemble of two chains on the empty dataset, as the constructor returns it (paired
  with the generator's state), and what \<open>run\<close> returns from it: after one iteration, after
  one iteration more in a second call, and after two iterations in a single call.
\<close>

definition start2 :: "unit ParallelTemperingMCMC \<times> nat" where
  "start2 = projr (construct toy_stdlib 2 Data_default priors0 0)"

definition after_1 :: "unit ParallelTemperingMCMC \<times> nat" where
  "after_1 = projr (run toy_stdlib 1 (fst start2) (snd start2))"

definition after_1_1 :: "unit ParallelTemperingMCMC \<times> nat" where
  "after_1_1 = projr (run toy_stdlib 1 (fst after_1) (snd after_1))"

definition after_2 :: "unit ParallelTemperingMCMC \<times> nat" where
  "after_2 = projr (run toy_stdlib 2 (fst start2) (snd start2))"

text \<open>Two chains under the invalid priors, where every log-posterior is \<open>-\<infinity>\<close>, and one
  step of the cold chain.\<close>

definition bad_start :: "unit ParallelTemperingMCMC \<times> nat" where
  "bad_start = projr (construct toy_stdlib 2 Data_default invalid_priors 0)"

definition bad_step :: "unit MCMCChain \<times> nat" where
  "bad_step =
     projr (step toy_stdlib (hd (chains (fst bad_start))) Data_default invalid_priors
              (snd bad_start))"

section \<open>Basic facts\<close>

lemmas fl_defs = minus_fl_def less_eq_fl_def signed_inf_def

lemma bind_e_simps [simp]: "bind_e (Inl e) f = Inl e" "bind_e (Inr x) f = f x"
  by (simp_all add: bind_e_def)

lemma vec_at_Cons_0 [simp]: "vec_at (x # xs) 0 = Inr x"
  by (simp add: vec_at_def)

section \<open>What a step, a swap and an iteration change\<close>

lemma bind_e_Inr_iff: "bind_e m f = Inr y \<longleftrightarrow> (\<exists>x. m = Inr x \<and> f x = Inr y)"
  by (cases m) simp_all

lemma step_Inr_elim:
  assumes "step L c d pri g = Inr (c', g')"
  obtains proposed pd g1 plp u where
    "propose L (proposal c) (current c) g = Inr (proposed, pd, g1)"
    and "log_posterior_tempered L proposed d pri (temperature c) = Inr plp"
    and "uniform_real L 0 1 g1 = (u, g')"
    and "current c' = (if flog (Fin u) < plp - current_log_posterior c
                       then proposed else current c)"
    and "current_log_posterior c' = (if flog (Fin u) < plp - current_log_posterior c
                       then plp else current_log_posterior c)"
    and "accepted c' = (if flog (Fin u) < plp - current_log_posterior c
                       then accepted c + 1 else accepted c)"
    and "total c' = total c + 1"
    and "samples c' = samples c @ [current c']"
    and "proposal c' = (if (total c + 1) mod 50 = 0
                        then adapt pd (total c + 1)
                               (of_int32 (accepted c') / of_int32 (total c + 1))
                        else pd)"
    and "temperature c' = temperature c"
proof -
  from assms obtain x where pr: "propose L (proposal c) (current c) g = Inr x"
    by (auto simp: step_def bind_e_Inr_iff)
  obtain proposed pd g1 where x: "x = (proposed, pd, g1)"
    by (cases x)
  from assms pr x obtain plp where
    lp: "log_posterior_tempered L proposed d pri (temperature c) = Inr plp"
    by (auto simp: step_def bind_e_Inr_iff)
  obtain u g2 where ur: "uniform_real L 0 1 g1 = (u, g2)"
    by (cases "uniform_real L 0 1 g1")
  from assms pr x lp ur have g2: "g2 = g'" and
    c': "c' = c\<lparr>current := (if flog (Fin u) < plp - current_log_posterior c
                                 then proposed else current c),
                    current_log_posterior := (if flog (Fin u) < plp - current_log_posterior c
                                 then plp else current_log_posterior c),
                    accepted := (if flog (Fin u) < plp - current_log_posterior c
                                 then accepted c + 1 else accepted c),
                    total := total c + 1,
                    samples := samples c @ [if flog (Fin u) < plp - current_log_posterior c
                                 then proposed else current c],
                    proposal := (if (total c + 1) mod 50 = 0
                                 then adapt pd (total c + 1)
                                        (of_int32 (if flog (Fin u) < plp - current_log_posterior c
                                            then accepted c + 1 else accepted c)
                                          / of_int32 (total c + 1))
                                 else pd)\<rparr>"
    by (simp_all add: step_def Let_def del: flog.simps)
  show ?thesis
  proof (rule that [OF pr [unfolded x] lp ur [unfolded g2]])
    show "current c' = (if flog (Fin u) < plp - current_log_posterior c
                       then proposed else current c)"
      and "current_log_posterior c' = (if flog (Fin u) < plp - current_log_posterior c
                       then plp else current_log_posterior c)"
      and "accepted c' = (if flog (Fin u) < plp - current_log_posterior c
                       then accepted c + 1 else accepted c)"
      and "total c' = total c + 1"
      and "samples c' = samples c @ [current c']"
      and "proposal c' = (if (total c + 1) mod 50 = 0
                        then adapt pd (total c + 1)
                               (of_int32 (accepted c') / of_int32 (total c + 1))
                        else pd)"
      and "temperature c' = temperature c"
      unfolding c' by (simp_all del: flog.simps)
  qed
qed

lemma step_frame:
  assumes "step L c d pri g = Inr (c', g')"
  shows "temperature c' = temperature c" and "total c' = total c + 1"
    and "samples c' = samples c @ [current c']"
  using assms by (auto elim!: step_Inr_elim)

lemma step_all_length:
  "step_all L d pri cs g = Inr (cs', g') \<Longrightarrow> length cs' = length cs"
  by (induction cs arbitrary: g cs' g') (auto simp: bind_e_Inr_iff)

lemma set_current_frame:
  assumes "set_current L c p d pri = Inr c'"
  shows "c' = c\<lparr>current := p, current_log_posterior := current_log_posterior c'\<rparr>"
    and "log_posterior_tempered L p d pri (temperature c) = Inr (current_log_posterior c')"
  using assms by (auto simp: set_current_def bind_e_Inr_iff)

lemma attempt_swap_unfold:
  assumes "uniform_int L 0 (num_chains e - 2) g = (i, g1)"
    and "uniform_real L 0 1 g1 = (u, g2)"
    and "vec_at (chains e) i = Inr ci" and "vec_at (chains e) (i + 1) = Inr cj"
    and "vec_at (temperatures e) (i + 1) = Inr tj" and "vec_at (temperatures e) i = Inr ti"
  shows "attempt_swap L e g =
     (if flog (Fin u) < (current_log_posterior ci - current_log_posterior cj)
                          * (Fin 1 / tj - Fin 1 / ti)
      then bind_e (set_current L ci (current cj) (data e) (priors e)) (\<lambda>ci'.
           bind_e (set_current L cj (current ci) (data e) (priors e)) (\<lambda>cj'.
           Inr (e\<lparr>swap_total := swap_total e + 1,
                    chains := (chains e)[nat i := ci', nat (i + 1) := cj'],
                    swap_accepted := swap_accepted e + 1\<rparr>, g2)))
      else Inr (e\<lparr>swap_total := swap_total e + 1\<rparr>, g2))"
  unfolding attempt_swap_def Let_def get_log_posterior_def get_current_def assms prod.case
    bind_e_simps ..

lemma attempt_swap_Inr_elim:
  assumes "attempt_swap L e g = Inr (e', g')"
  obtains i g1 u ci cj tj ti where
    "uniform_int L 0 (num_chains e - 2) g = (i, g1)"
    and "uniform_real L 0 1 g1 = (u, g')"
    and "vec_at (chains e) i = Inr ci" and "vec_at (chains e) (i + 1) = Inr cj"
    and "vec_at (temperatures e) (i + 1) = Inr tj" and "vec_at (temperatures e) i = Inr ti"
    and "flog (Fin u) < (current_log_posterior ci - current_log_posterior cj)
                          * (Fin 1 / tj - Fin 1 / ti)
         \<Longrightarrow> \<exists>ci' cj'. set_current L ci (current cj) (data e) (priors e) = Inr ci'
               \<and> set_current L cj (current ci) (data e) (priors e) = Inr cj'
               \<and> e' = e\<lparr>swap_total := swap_total e + 1,
                         chains := (chains e)[nat i := ci', nat (i + 1) := cj'],
                         swap_accepted := swap_accepted e + 1\<rparr>"
    and "\<not> flog (Fin u) < (current_log_posterior ci - current_log_posterior cj)
                          * (Fin 1 / tj - Fin 1 / ti)
         \<Longrightarrow> e' = e\<lparr>swap_total := swap_total e + 1\<rparr>"
proof -
  obtain i g1 where ui: "uniform_int L 0 (num_chains e - 2) g = (i, g1)"
    by (cases "uniform_int L 0 (num_chains e - 2) g")
  obtain u g2 where ur: "uniform_real L 0 1 g1 = (u, g2)"
    by (cases "uniform_real L 0 1 g1")
  obtain ci where ci: "vec_at (chains e) i = Inr ci"
    using assms ui by (cases "vec_at (chains e) i") (simp_all add: attempt_swap_def Let_def)
  obtain cj where cj: "vec_at (chains e) (i + 1) = Inr cj"
    using assms ui ci
    by (cases "vec_at (chains e) (i + 1)") (simp_all add: attempt_swap_def Let_def)
  obtain tj where tj: "vec_at (temperatures e) (i + 1) = Inr tj"
    using assms ui ci cj
    by (cases "vec_at (temperatures e) (i + 1)") (simp_all add: attempt_swap_def Let_def)
  obtain ti where ti: "vec_at (temperatures e) i = Inr ti"
    using assms ui ci cj tj
    by (cases "vec_at (temperatures e) i") (simp_all add: attempt_swap_def Let_def)
  note unf = attempt_swap_unfold [OF ui ur ci cj tj ti]
  have g: "g2 = g'"
    using assms unfolding unf by (auto simp: bind_e_Inr_iff split: if_splits)
  have acc: "\<exists>ci' cj'. set_current L ci (current cj) (data e) (priors e) = Inr ci'
               \<and> set_current L cj (current ci) (data e) (priors e) = Inr cj'
               \<and> e' = e\<lparr>swap_total := swap_total e + 1,
                         chains := (chains e)[nat i := ci', nat (i + 1) := cj'],
                         swap_accepted := swap_accepted e + 1\<rparr>"
    if "flog (Fin u) < (current_log_posterior ci - current_log_posterior cj)
                          * (Fin 1 / tj - Fin 1 / ti)"
    using assms that unfolding unf by (auto simp: bind_e_Inr_iff)
  have rej: "e' = e\<lparr>swap_total := swap_total e + 1\<rparr>"
    if "\<not> flog (Fin u) < (current_log_posterior ci - current_log_posterior cj)
                          * (Fin 1 / tj - Fin 1 / ti)"
    using assms that unfolding unf by auto
  show ?thesis
    using that [OF ui ur [unfolded g] ci cj tj ti acc rej] by blast
qed

lemma attempt_swap_frame:
  assumes "attempt_swap L e g = Inr (e', g')"
  shows "swap_total e' = swap_total e + 1" and "num_chains e' = num_chains e"
    and "data e' = data e" and "priors e' = priors e" and "temperatures e' = temperatures e"
    and "length (chains e') = length (chains e)"
proof -
  from assms obtain x where
    "e' = e\<lparr>swap_total := swap_total e + 1\<rparr>
     \<or> e' = e\<lparr>swap_total := swap_total e + 1, chains := x,
               swap_accepted := swap_accepted e + 1\<rparr> \<and> length x = length (chains e)"
    by (elim attempt_swap_Inr_elim) (metis length_list_update)
  then show "swap_total e' = swap_total e + 1" and "num_chains e' = num_chains e"
    and "data e' = data e" and "priors e' = priors e" and "temperatures e' = temperatures e"
    and "length (chains e') = length (chains e)"
    by auto
qed

lemma run_iteration_frame:
  assumes "run_iteration L iter e g = Inr (e', g')"
  shows "swap_total e' = swap_total e + (if iter mod 10 = 0 \<and> 1 < num_chains e then 1 else 0)"
    and "num_chains e' = num_chains e" and "data e' = data e" and "priors e' = priors e"
    and "temperatures e' = temperatures e" and "length (chains e') = length (chains e)"
proof -
  obtain chs g1 where sa: "step_all L (data e) (priors e) (chains e) g = Inr (chs, g1)"
    and rest: "(if iter mod 10 = 0 \<and> 1 < num_chains e
                then attempt_swap L (e\<lparr>chains := chs\<rparr>) g1
                else Inr (e\<lparr>chains := chs\<rparr>, g1)) = Inr (e', g')"
    using assms by (auto simp: run_iteration_def bind_e_Inr_iff Let_def)
  note len = step_all_length [OF sa]
  have "swap_total e' = swap_total e + (if iter mod 10 = 0 \<and> 1 < num_chains e then 1 else 0)
    \<and> num_chains e' = num_chains e \<and> data e' = data e \<and> priors e' = priors e
    \<and> temperatures e' = temperatures e \<and> length (chains e') = length (chains e)"
  proof (cases "iter mod 10 = 0 \<and> 1 < num_chains e")
    case True
    then have "attempt_swap L (e\<lparr>chains := chs\<rparr>) g1 = Inr (e', g')"
      using rest by simp
    from attempt_swap_frame [OF this] show ?thesis
      using True len by simp
  next
    case False
    then have "e' = e\<lparr>chains := chs\<rparr>"
      using rest by (auto split: if_splits)
    then show ?thesis
      using False len by simp
  qed
  then show "swap_total e' = swap_total e + (if iter mod 10 = 0 \<and> 1 < num_chains e then 1 else 0)"
    and "num_chains e' = num_chains e" and "data e' = data e" and "priors e' = priors e"
    and "temperatures e' = temperatures e" and "length (chains e') = length (chains e)"
    by simp_all
qed

lemma multiples_step:
  "(i + 9) div 10 + (if i mod 10 = 0 then 1 else 0) = (i + 1 + 9) div (10::int)"
proof -
  define q where "q = i div 10"
  define r where "r = i mod 10"
  have i: "i = 10 * q + r" and r: "0 \<le> r" "r < 10"
    by (simp_all add: q_def r_def)
  have next_ceiling: "(i + 1 + 9) div 10 = q + 1"
  proof -
    have "i + 1 + 9 = 10 * (q + 1) + r"
      by (simp add: i)
    then show ?thesis
      using r by simp
  qed
  show ?thesis
  proof (cases "r = 0")
    case True
    then have "(i + 9) div 10 = q"
      by (simp add: i)
    then show ?thesis
      using next_ceiling True by (simp add: r_def)
  next
    case False
    have "i + 9 = 10 * (q + 1) + (r - 1)"
      by (simp add: i)
    moreover have "0 \<le> r - 1" "r - 1 < 10"
      using r False by simp_all
    ultimately have "(i + 9) div 10 = q + 1"
      by simp
    then show ?thesis
      using next_ceiling False by (simp add: r_def)
  qed
qed

lemma run_loop_swap_total:
  assumes "run_loop L n iter e g = Inr (e', g')" and "0 \<le> iter" and "iter \<le> n"
    and "1 < num_chains e"
  shows "swap_total e' = swap_total e + (n + 9) div 10 - (iter + 9) div 10
         \<and> num_chains e' = num_chains e"
  using assms
proof (induction L n iter e g rule: run_loop.induct)
  case (1 L n iter e g)
  show ?case
  proof (cases "iter < n")
    case False
    with "1.prems" show ?thesis
      by (subst (asm) run_loop.simps) simp
  next
    case True
    with "1.prems"(1) obtain e1 g1 where
      it: "run_iteration L iter e g = Inr (e1, g1)"
      and rest: "run_loop L n (iter + 1) e1 g1 = Inr (e', g')"
      by (subst (asm) run_loop.simps) (auto simp: bind_e_Inr_iff)
    have nc: "num_chains e1 = num_chains e"
      using run_iteration_frame(2) [OF it] .
    have st: "swap_total e1 = swap_total e + (if iter mod 10 = 0 then 1 else 0)"
      using run_iteration_frame(1) [OF it] "1.prems"(4) by simp
    have IH: "swap_total e' = swap_total e1 + (n + 9) div 10 - (iter + 1 + 9) div 10
              \<and> num_chains e' = num_chains e1"
      using "1.IH" [OF True rest] True "1.prems"(2,4) nc by simp
    show ?thesis
      using IH st nc multiples_step [of iter] by (simp split: if_splits)
  qed
qed

lemma run_swap_total:
  assumes "run L n e g = Inr (e', g')" and "0 \<le> n" and "1 < num_chains e"
  shows "swap_total e' = swap_total e + (n + 9) div 10" and "num_chains e' = num_chains e"
  using run_loop_swap_total [of L n 0 e g e' g'] assms by (simp_all add: run_def)

lemma run_loop_split:
  assumes "iter \<le> m" and "m \<le> n"
  shows "run_loop L n iter e g
         = bind_e (run_loop L m iter e g) (\<lambda>(e1, g1). run_loop L n m e1 g1)"
  using assms
proof (induction L m iter e g rule: run_loop.induct)
  case (1 L m iter e g)
  show ?case
  proof (cases "iter < m")
    case False
    with "1.prems" have "iter = m"
      by simp
    then show ?thesis
      by (subst (2) run_loop.simps) simp
  next
    case True
    have lt: "iter < n"
      using True "1.prems" by simp
    have IH: "run_loop L n (iter + 1) e1 g1
              = bind_e (run_loop L m (iter + 1) e1 g1) (\<lambda>(e2, g2). run_loop L n m e2 g2)"
      for e1 g1
      using "1.IH" [OF True] True "1.prems" by simp
    have unfold_n: "run_loop L n iter e g
        = bind_e (run_iteration L iter e g) (\<lambda>(e1, g1). run_loop L n (iter + 1) e1 g1)"
      using lt by (subst run_loop.simps) simp
    have unfold_m: "run_loop L m iter e g
        = bind_e (run_iteration L iter e g) (\<lambda>(e1, g1). run_loop L m (iter + 1) e1 g1)"
      using True by (subst run_loop.simps) simp
    show ?thesis
      unfolding unfold_n unfold_m
      by (cases "run_iteration L iter e g") (auto simp: IH)
  qed
qed

section \<open>Evaluating the instances\<close>

lemmas eval_defs =
  construct_def to_size_def vector_double_max_size_def upto.simps ladder_entry_def of_int32_def
  MCMCChain_new_def log_posterior_tempered_def log_likelihood_def
  Data_default_def log_likelihood_loop.simps
  log_prior_def log_beta_pdf_def log_normal_pdf_def log_truncated_normal_pdf_def
  priors0_def Priors_default_def toy_stdlib_def fl_defs Let_def ProposalDistribution_new_def
  run_def run_loop.simps run_iteration_def step_def propose_def vec_at_def loop_result_def
  reflect_unit.simps reflect_zero.simps reflect_unit_body_def attempt_swap_def set_current_def
  get_log_posterior_def get_current_def adapt_def

lemma start2_returns: "construct toy_stdlib 2 Data_default priors0 0 = Inr start2"
proof -
  have "\<exists>x. construct toy_stdlib 2 Data_default priors0 0 = Inr x"
    by (simp add: eval_defs)
  then show ?thesis
    by (auto simp: start2_def)
qed

lemma start2_facts:
  "num_chains (fst start2) = 2" "swap_total (fst start2) = 0" "length (chains (fst start2)) = 2"
  "data (fst start2) = Data_default" "length (temperatures (fst start2)) = 2"
  by (simp_all add: start2_def eval_defs)

lemma after_1_returns: "run toy_stdlib 1 (fst start2) (snd start2) = Inr after_1"
proof -
  have "\<exists>x. run toy_stdlib 1 (fst start2) (snd start2) = Inr x"
    by (simp add: start2_def eval_defs)
  then show ?thesis
    by (auto simp: after_1_def)
qed

lemma after_1_1_returns: "run toy_stdlib 1 (fst after_1) (snd after_1) = Inr after_1_1"
proof -
  have "\<exists>x. run toy_stdlib 1 (fst after_1) (snd after_1) = Inr x"
    by (simp add: after_1_def start2_def eval_defs)
  then show ?thesis
    by (auto simp: after_1_1_def)
qed

lemma after_2_returns: "run toy_stdlib 2 (fst start2) (snd start2) = Inr after_2"
proof -
  have "\<exists>x. run toy_stdlib 2 (fst start2) (snd start2) = Inr x"
    by (simp add: start2_def eval_defs)
  then show ?thesis
    by (auto simp: after_2_def)
qed

section \<open>Log-likelihood and tempered log-posterior\<close>

lemma partial_sum_Suc:
  "k < length ts \<Longrightarrow> partial_sum ts (Suc k) = partial_sum ts k + ts ! k"
  by (simp add: partial_sum_def take_Suc_conv_app_nth)

lemma log_likelihood_loop_spec:
  assumes "data_ok d" and "i \<le> nat (N d)"
  shows "log_likelihood_loop p d (int i) (partial_sum (bernoulli_terms p d) i)
         = Inr (if list_all (\<lambda>k. isfinite (partial_sum (bernoulli_terms p d) k))
                     [Suc i..<Suc (nat (N d))]
                then partial_sum (bernoulli_terms p d) (nat (N d)) else NInf)"
  using assms(2)
proof (induction "nat (N d) - i" arbitrary: i)
  case 0
  then have "i = nat (N d)"
    by simp
  then have "\<not> int i < N d"
    by simp
  then show ?case
    using \<open>i = nat (N d)\<close> by (subst log_likelihood_loop.simps) simp
next
  case (Suc m)
  then have lt: "i < nat (N d)"
    by simp
  then have iN: "int i < N d"
    by simp
  let ?ts = "bernoulli_terms p d"
  have len: "length ?ts = nat (N d)"
    by (simp add: bernoulli_terms_def)
  have t: "vec_at (titre d) (int i) = Inr (titre d ! i)"
    using assms(1) iN by (simp add: vec_at_def data_ok_def)
  have y: "vec_at (infected d) (int i) = Inr (infected d ! i)"
    using assms(1) iN by (simp add: vec_at_def data_ok_def)
  have nth_term: "?ts ! i = log_bernoulli_pmf (infected d ! i) (prob_infection p (titre d ! i))"
    using lt by (simp add: bernoulli_terms_def)
  have next_sum: "partial_sum ?ts i + log_bernoulli_pmf (infected d ! i) (prob_infection p (titre d ! i))
                    = partial_sum ?ts (Suc i)"
    using lt len by (simp add: partial_sum_Suc nth_term)
  have range: "[Suc i..<Suc (nat (N d))] = Suc i # [Suc (Suc i)..<Suc (nat (N d))]"
    using lt by (simp add: upt_conv_Cons)
  have IH: "log_likelihood_loop p d (int (Suc i)) (partial_sum ?ts (Suc i))
         = Inr (if list_all (\<lambda>k. isfinite (partial_sum ?ts k)) [Suc (Suc i)..<Suc (nat (N d))]
                then partial_sum ?ts (nat (N d)) else NInf)"
    using Suc.hyps(1) [of "Suc i"] Suc.hyps(2) lt by simp
  have plus1: "int i + 1 = int (Suc i)"
    by simp
  show ?case
    apply (subst log_likelihood_loop.simps)
    apply (simp only: iN if_True t y bind_e_simps Let_def next_sum plus1 IH range)
    apply simp
    done
qed

lemma log_likelihood_is_spec:
  assumes "data_ok d"
  shows "log_likelihood p d = Inr (log_likelihood_spec p d)"
proof -
  have zero: "partial_sum (bernoulli_terms p d) 0 = Fin 0"
    by (simp add: partial_sum_def)
  have range: "[0..<Suc (nat (N d))] = 0 # [Suc 0..<Suc (nat (N d))]"
    by (simp add: upt_conv_Cons)
  have len: "length (bernoulli_terms p d) = nat (N d)"
    by (simp add: bernoulli_terms_def)
  show ?thesis
    using log_likelihood_loop_spec [OF assms, of 0 p]
    by (simp add: log_likelihood_def log_likelihood_spec_def zero len range del: upt_Suc)
qed

lemma finite_div_finite: "isfinite (ll / Fin t) = (isfinite ll \<and> t \<noteq> 0)"
  by (cases ll) (simp_all add: fl_defs)

text \<open>
  C5, as the code has it: on a dataset whose count \<open>N\<close> stays within its vectors,
  \<open>log_likelihood\<close> returns the sum of the per-observation Bernoulli log-pmfs, or \<open>-\<infinity>\<close> as
  soon as a partial sum is not finite; and \<open>log_posterior_tempered\<close> returns
  \<open>log_prior + log_likelihood / T\<close> when the log-prior and the log-likelihood are both
  finite and \<open>-\<infinity>\<close> when either of these two is not. The finiteness of the quotient
  \<open>log_likelihood / T\<close> is not tested: for a finite temperature it is finite exactly when the
  log-likelihood is finite and \<open>T\<close> is not zero, so for a finite non-zero \<open>T\<close> the two tests
  agree.
\<close>

theorem log_posterior_tempered_spec:
  assumes "data_ok d"
  shows "log_likelihood p d = Inr (log_likelihood_spec p d)
   \<and> log_posterior_tempered L p d pri T
       = Inr (if isfinite (log_prior L p pri) \<and> isfinite (log_likelihood_spec p d)
              then log_prior L p pri + log_likelihood_spec p d / T else NInf)
   \<and> isfinite (log_likelihood_spec p d / Fin t)
       = (isfinite (log_likelihood_spec p d) \<and> t \<noteq> 0)"
  using log_likelihood_is_spec [OF assms, of p]
  by (auto simp add: log_posterior_tempered_def finite_div_finite Let_def)

theorem log_posterior_tempered_spec_witness:
  "log_likelihood theta0 two_points = Inr (log_likelihood_spec theta0 two_points)
   \<and> log_posterior_tempered toy_stdlib theta0 two_points priors0 (Fin 10)
       = Inr (if isfinite (log_prior toy_stdlib theta0 priors0)
                 \<and> isfinite (log_likelihood_spec theta0 two_points)
              then log_prior toy_stdlib theta0 priors0
                   + log_likelihood_spec theta0 two_points / Fin 10
              else NInf)"
  using log_posterior_tempered_spec [of two_points theta0 toy_stdlib priors0 "Fin 10" 10]
  by (simp add: data_ok_def two_points_def Data_of_def)

text \<open>
  C5 as stated fails where the quotient is not finite although the log-likelihood is: at
  the temperature NaN (the temperature of a single chain) and at the temperature \<open>0\<close>, with
  the empty dataset, the log-prior is finite, the log-likelihood is \<open>0\<close>, the addend
  \<open>0 / T\<close> is NaN, and the result is NaN, not \<open>-\<infinity>\<close>.
\<close>

theorem log_posterior_nan_temperature:
  "log_posterior_tempered toy_stdlib theta0 Data_default priors0 NaN = Inr NaN
   \<and> log_posterior_tempered toy_stdlib theta0 Data_default priors0 (Fin 0) = Inr NaN
   \<and> isfinite (log_prior toy_stdlib theta0 priors0)
   \<and> log_likelihood theta0 Data_default = Inr (Fin 0)
   \<and> \<not> isfinite (Fin 0 / NaN) \<and> \<not> isfinite (Fin 0 / Fin 0)"
  by (simp add: log_posterior_tempered_def log_likelihood_def log_likelihood_loop.simps
      Data_default_def log_prior_def log_beta_pdf_def log_normal_pdf_def
      log_truncated_normal_pdf_def priors0_def Priors_default_def toy_stdlib_def theta0_def
      fl_defs Let_def)

section \<open>The reflection loops\<close>

lemma reflect_unit_body_int: "\<exists>k'::int. reflect_unit_body (Fin (of_int k)) = Fin (of_int k')"
proof -
  consider "k \<le> - 1" | "k = 0" | "1 \<le> k"
    by linarith
  then show ?thesis
  proof cases
    case 1
    then have "reflect_unit_body (Fin (of_int k)) = Fin (of_int (2 + k))"
      by (simp add: reflect_unit_body_def fl_defs Let_def)
    then show ?thesis ..
  next
    case 2
    then have "reflect_unit_body (Fin (of_int k)) = Fin (of_int 0)"
      by (simp add: reflect_unit_body_def fl_defs Let_def)
    then show ?thesis ..
  next
    case 3
    then have "reflect_unit_body (Fin (of_int k)) = Fin (of_int (2 - k))"
      by (simp add: reflect_unit_body_def fl_defs Let_def)
    then show ?thesis ..
  qed
qed

lemma reflect_unit_returns_no_integer:
  assumes "reflect_unit x = Some y"
  shows "\<forall>k::int. x \<noteq> Fin (of_int k)"
proof (rule reflect_unit.raw_induct [where P = "\<lambda>x y. \<forall>k::int. x \<noteq> Fin (of_int k)", OF _ assms])
  fix f :: "fl \<Rightarrow> fl option" and x' y' :: fl
  assume IH: "\<And>x y. f x = Some y \<Longrightarrow> \<forall>k::int. x \<noteq> Fin (of_int k)"
  assume unfolded:
    "(if x' \<le> Fin 0 \<or> Fin 1 \<le> x' then f (reflect_unit_body x') else Some x') = Some y'"
  show "\<forall>k::int. x' \<noteq> Fin (of_int k)"
  proof (intro allI notI)
    fix k :: int
    assume x': "x' = Fin (of_int k)"
    have "x' \<le> Fin 0 \<or> Fin 1 \<le> x'"
      by (cases "k \<le> 0") (auto simp: x' fl_defs)
    with unfolded have "f (reflect_unit_body x') = Some y'"
      by simp
    from IH [OF this] reflect_unit_body_int [of k] show False
      by (auto simp: x')
  qed
qed

lemma reflect_unit_integer: "reflect_unit (Fin (of_int k)) = None"
  using reflect_unit_returns_no_integer [of "Fin (of_int k)"]
  by (cases "reflect_unit (Fin (of_int k))") auto

lemma reflect_zero_returns_nonzero:
  assumes "reflect_zero x = Some y"
  shows "x \<noteq> Fin 0"
proof (rule reflect_zero.raw_induct [where P = "\<lambda>x y. x \<noteq> Fin 0", OF _ assms])
  fix f :: "fl \<Rightarrow> fl option" and x' y' :: fl
  assume IH: "\<And>x y. f x = Some y \<Longrightarrow> x \<noteq> Fin 0"
  assume unfolded: "(if x' \<le> Fin 0 then f (- x') else Some x') = Some y'"
  show "x' \<noteq> Fin 0"
  proof
    assume "x' = Fin 0"
    with unfolded have "f (Fin 0) = Some y'"
      by (simp add: fl_defs)
    from IH [OF this] show False
      by simp
  qed
qed

lemma reflect_zero_zero: "reflect_zero (Fin 0) = None"
  using reflect_zero_returns_nonzero [of "Fin 0"] by (cases "reflect_zero (Fin 0)") auto

text \<open>
  C2 (the loops do not always terminate): a candidate that lands exactly on a boundary
  is never moved off it. For \<open>floor\<close> and \<open>ceiling\<close> the loop runs forever from \<open>0\<close>, from \<open>1\<close>
  and from \<open>2\<close> (from every integer, by \<open>reflect_unit_integer\<close>); for \<open>slope\<close> it runs forever
  from \<open>0\<close>. With the current \<open>floor = 0.5\<close>, the initial step size \<open>0.1\<close> and a normal draw of
  \<open>-5\<close> the candidate is \<open>0\<close> and \<open>propose\<close> never returns.
\<close>

theorem reflection_diverges_on_boundary:
  "reflect_unit (Fin 0) = None \<and> reflect_unit (Fin 1) = None \<and> reflect_unit (Fin 2) = None
   \<and> reflect_zero (Fin 0) = None
   \<and> propose boundary_stdlib (ProposalDistribution_new boundary_stdlib)
        \<lparr>floor_p = Fin 0.5, ceiling_p = Fin 0.5, ec50 = Fin 0, slope = Fin 1\<rparr> 0
       = Inl NonTermination"
  using reflect_unit_integer [of 0] reflect_unit_integer [of 1] reflect_unit_integer [of 2]
    reflect_zero_zero
  by (simp add: propose_def ProposalDistribution_new_def boundary_stdlib_def toy_stdlib_def
      vec_at_def loop_result_def bind_e_def)

section \<open>The temperature ladder\<close>

lemma ladder_single: "ladder_entry 1 0 = NaN"
  by (simp add: ladder_entry_def of_int32_def fl_defs)

lemma ladder_entry_Fin:
  "2 \<le> K \<Longrightarrow> ladder_entry K i = Fin (10 powr (of_int i / of_int (K - 1)))"
  by (simp add: ladder_entry_def of_int32_def)

lemma ladder_two_or_more:
  assumes "2 \<le> K"
  shows "ladder_entry K 0 = Fin 1" and "ladder_entry K (K - 1) = Fin 10"
    and "i < j \<Longrightarrow> ladder_entry K i < ladder_entry K j"
proof -
  show "ladder_entry K 0 = Fin 1"
    using assms by (simp add: ladder_entry_Fin)
  show "ladder_entry K (K - 1) = Fin 10"
    using assms by (simp add: ladder_entry_Fin)
  assume "i < j"
  then have "real_of_int i / real_of_int (K - 1) < real_of_int j / real_of_int (K - 1)"
    using assms by (simp add: divide_strict_right_mono)
  then show "ladder_entry K i < ladder_entry K j"
    using assms by (simp add: ladder_entry_Fin)
qed

text \<open>
  C4 (the ladder of a single chain): with \<open>K = 1\<close> the exponent is \<open>0.0 / 0\<close>, which is NaN,
  so the only temperature is NaN and not \<open>1\<close>; the cached log-posterior of the chain is NaN
  with it. For \<open>K \<ge> 2\<close> the ladder is as specified (\<open>ladder_two_or_more\<close>).
\<close>

theorem single_chain_ladder_is_nan:
  "ladder_entry 1 0 = NaN
   \<and> map_sum id (temperatures \<circ> fst) (construct toy_stdlib 1 Data_default priors0 0)
       = Inr [NaN]
   \<and> map_sum id (map current_log_posterior \<circ> chains \<circ> fst)
        (construct toy_stdlib 1 Data_default priors0 0) = Inr [NaN]"
  apply (simp add: ladder_single construct_def to_size_def vector_double_max_size_def upto.simps
      MCMCChain_new_def log_posterior_tempered_def log_likelihood_def Data_default_def
      log_likelihood_loop.simps
      log_prior_def log_beta_pdf_def log_normal_pdf_def log_truncated_normal_pdf_def
      priors0_def Priors_default_def toy_stdlib_def fl_defs Let_def)
  done

section \<open>Construction\<close>

lemma log_posterior_returns:
  "data_ok d \<Longrightarrow> \<exists>lp. log_posterior_tempered L p d pri T = Inr lp"
  by (simp add: log_posterior_tempered_def log_likelihood_is_spec Let_def)

lemma init_chains_returns:
  assumes "data_ok d"
  shows "\<exists>chs g'. init_chains L d p temps g = Inr (chs, g') \<and> length chs = length temps"
proof (induction temps arbitrary: g)
  case Nil
  show ?case by simp
next
  case (Cons t ts)
  obtain f g1 where f: "uniform_real L 0.01 0.5 g = (f, g1)" by (cases "uniform_real L 0.01 0.5 g")
  obtain c g2 where c: "uniform_real L 0.1 0.9 g1 = (c, g2)" by (cases "uniform_real L 0.1 0.9 g1")
  obtain e g3 where e: "uniform_real L (- 2) 2 g2 = (e, g3)" by (cases "uniform_real L (- 2) 2 g2")
  obtain s g4 where s: "uniform_real L 0.1 3 g3 = (s, g4)" by (cases "uniform_real L 0.1 3 g3")
  obtain lp where lp: "log_posterior_tempered L
      \<lparr>floor_p = Fin f, ceiling_p = Fin c, ec50 = Fin e, slope = Fin s\<rparr> d p t = Inr lp"
    using log_posterior_returns [OF assms] by blast
  obtain chs g' where rest: "init_chains L d p ts g4 = Inr (chs, g')" "length chs = length ts"
    using Cons.IH [of g4] by blast
  show ?case
    using f c e s lp rest by (simp add: MCMCChain_new_def)
qed

lemma to_size_negative: "- (2 ^ 31) \<le> K \<Longrightarrow> K < 0 \<Longrightarrow> int (to_size K) = 2 ^ 32 + K"
  unfolding to_size_def
  by (simp add: unat_eq_nat_uint uint_word_of_int take_bit_eq_mod) (smt (verit) mod_add_self1 mod_pos_pos_trivial)

lemma to_size_nonneg: "0 \<le> K \<Longrightarrow> K < 2 ^ 31 \<Longrightarrow> to_size K = nat K"
  unfolding to_size_def
  by (simp add: unat_eq_nat_uint uint_word_of_int take_bit_eq_mod)

text \<open>
  C1, as the code has it: the constructor validates nothing. For a 32-bit \<open>K\<close> and a dataset
  whose count stays within its vectors, construction fails exactly when \<open>K\<close> is negative
  or beyond the capacity of the temperature vector, with a length error and before any
  chain exists; for every other \<open>K\<close>, \<open>K = 0\<close> included, it succeeds with \<open>K\<close> chains, whatever
  \<open>D.N\<close>, the prior SDs and the Beta shape parameters are.
\<close>

theorem construct_fails_only_on_length:
  assumes "- (2 ^ 31) \<le> K" and "K < 2 ^ 31" and "data_ok d"
  shows "if K < 0 \<or> int vector_double_max_size < K
         then construct L K d p g = Inl LengthError
         else (\<exists>e g'. construct L K d p g = Inr (e, g') \<and> length (chains e) = nat K
                 \<and> num_chains e = K \<and> data e = d \<and> priors e = p)"
proof (cases "K < 0")
  case True
  then have "int vector_double_max_size < int (to_size K)"
    using assms(1) by (simp add: to_size_negative vector_double_max_size_def)
  then show ?thesis
    using True by (simp add: construct_def)
next
  case False
  then have sz: "to_size K = nat K"
    using assms(2) by (simp add: to_size_nonneg)
  show ?thesis
  proof (cases "int vector_double_max_size < K")
    case True
    then show ?thesis
      using False sz by (simp add: construct_def)
  next
    case big: False
    obtain chs g' where "init_chains L d p (map (ladder_entry K) [0..K - 1]) g = Inr (chs, g')"
      "length chs = length (map (ladder_entry K) [0..K - 1])"
      using init_chains_returns [OF assms(3), of L p "map (ladder_entry K) [0..K - 1]" g]
      by blast
    then show ?thesis
      using False big sz by (simp add: construct_def)
  qed
qed

theorem construct_fails_only_on_length_witness:
  "construct toy_stdlib (- 1) two_points priors0 0 = Inl LengthError
   \<and> (\<exists>e g'. construct toy_stdlib 15 two_points priors0 0 = Inr (e, g')
          \<and> length (chains e) = nat 15 \<and> num_chains e = 15 \<and> data e = two_points
          \<and> priors e = priors0)"
  using construct_fails_only_on_length [of "- 1" two_points toy_stdlib priors0 0]
    construct_fails_only_on_length [of 15 two_points toy_stdlib priors0 0]
  by (simp add: data_ok_def two_points_def Data_of_def vector_double_max_size_def)

text \<open>
  C1 as stated fails: with \<open>K = 0\<close>, an empty dataset (\<open>N = 0\<close>), zero and negative SDs and
  non-positive Beta shapes the constructor returns an ensemble (of no chains); with \<open>K = 1\<close>
  and the same data and priors it returns as well.
\<close>

theorem construct_accepts_invalid_configuration:
  "construct toy_stdlib 0 Data_default invalid_priors 0
     = Inr (\<lparr>chains = [], temperatures = [], data = Data_default, priors = invalid_priors,
             num_chains = 0, swap_accepted = 0, swap_total = 0\<rparr>, 0)
   \<and> \<not> isl (construct toy_stdlib 1 Data_default invalid_priors 0)"
proof -
  have "data_ok Data_default"
    by (simp add: data_ok_def Data_default_def)
  from init_chains_returns [OF this, of toy_stdlib invalid_priors "[ladder_entry 1 0]" 0]
  obtain chs g' where "init_chains toy_stdlib Data_default invalid_priors [ladder_entry 1 0] 0
      = Inr (chs, g')"
    by blast
  then show ?thesis
    by (simp add: construct_def to_size_def vector_double_max_size_def upto.simps)
qed

section \<open>The swap cadence\<close>

lemma run_continues_at:
  assumes "0 \<le> a" and "0 \<le> b" and "run L a e g = Inr (e1, g1)"
  shows "run L (a + b) e g = run_loop L (a + b) a e1 g1"
  using run_loop_split [of 0 a "a + b" L e g] assms by (simp add: run_def)

lemma run_iteration_same_guard:
  "(i mod 10 = 0) = (j mod 10 = 0) \<Longrightarrow> run_iteration L i e g = run_iteration L j e g"
  by (simp add: run_iteration_def)

lemma run_loop_shift:
  assumes "a mod 10 = 0"
  shows "run_loop L (a + b) (a + i) e g = run_loop L b i e g"
proof (induction L b i e g rule: run_loop.induct)
  case (1 L b i e g)
  have guard: "((a + i) mod 10 = 0) = (i mod 10 = 0)"
    using mod_add_left_eq [of a 10 i] assms by simp
  have it: "run_iteration L (a + i) e g = run_iteration L i e g"
    using guard by (rule run_iteration_same_guard)
  show ?case
  proof (cases "i < b")
    case False
    have "run_loop L (a + b) (a + i) e g = Inr (e, g)"
      using False by (subst run_loop.simps) simp
    moreover have "run_loop L b i e g = Inr (e, g)"
      using False by (subst run_loop.simps) simp
    ultimately show ?thesis
      by simp
  next
    case True
    have IH: "run_loop L (a + b) (a + (i + 1)) x y = run_loop L b (i + 1) x y" for x y
      using "1.IH" [OF True] .
    have l: "run_loop L (a + b) (a + i) e g
        = bind_e (run_iteration L i e g) (\<lambda>(x, y). run_loop L (a + b) (a + (i + 1)) x y)"
      using True by (subst run_loop.simps) (simp add: it add.assoc)
    have r: "run_loop L b i e g
        = bind_e (run_iteration L i e g) (\<lambda>(x, y). run_loop L b (i + 1) x y)"
      using True by (subst run_loop.simps) simp
    show ?thesis
      unfolding l r IH ..
  qed
qed

lemma run_split_at_multiple:
  assumes "0 \<le> a" and "0 \<le> b" and "a mod 10 = 0"
  shows "run L (a + b) e g = bind_e (run L a e g) (\<lambda>(e1, g1). run L b e1 g1)"
proof -
  have "run_loop L (a + b) a e1 g1 = run_loop L b 0 e1 g1" for e1 g1
    using run_loop_shift [OF assms(3), of L b 0 e1 g1] by simp
  then show ?thesis
    using run_loop_split [of 0 a "a + b" L e g] assms(1,2) by (simp add: run_def)
qed

lemma run_loop_first:
  "i < n \<Longrightarrow> run_loop L n i e g
     = bind_e (run_iteration L i e g) (\<lambda>(x, gx). run_loop L n (i + 1) x gx)"
  by (subst run_loop.simps) simp

text \<open>
  C10, as the code has it: the swap cadence is counted from the start of each \<open>run\<close> call.
  With more than one chain, a call \<open>run(a)\<close> that returns has attempted a swap at its
  iterations \<open>0, 10, 20, \<dots>\<close>: one iteration at index \<open>i\<close> adds one to \<open>swap_total\<close> exactly when
  \<open>i\<close> is a multiple of 10, and the call adds \<open>(a + 9) div 10\<close> in all. A second call \<open>run(b)\<close>
  starts again at index \<open>0\<close>, where the single call \<open>run(a + b)\<close> continues at index \<open>a\<close>.
  When \<open>a\<close> is a multiple of 10 (or \<open>b = 0\<close>) the two are the same computation. When \<open>a\<close> is not a
  multiple of 10 and \<open>b > 0\<close> the schedules differ: the iteration that follows the first
  \<open>a\<close> ones attempts a swap in the second call (index \<open>0\<close>) and none in the single call
  (index \<open>a\<close>).
\<close>

theorem swap_schedule_per_call:
  assumes "1 < num_chains e" and "0 \<le> a" and "0 \<le> b" and "run L a e g = Inr (e1, g1)"
  shows "swap_total e1 = swap_total e + (a + 9) div 10
       \<and> (\<forall>i x gx. run_iteration L i e1 g1 = Inr (x, gx)
              \<longrightarrow> swap_total x = swap_total e1 + (if i mod 10 = 0 then 1 else 0))
       \<and> run L b e1 g1 = run_loop L b 0 e1 g1
       \<and> run L (a + b) e g = run_loop L (a + b) a e1 g1
       \<and> (a mod 10 = 0 \<or> b = 0 \<longrightarrow> run L (a + b) e g = run L b e1 g1)
       \<and> (a mod 10 \<noteq> 0 \<and> 0 < b \<longrightarrow>
            run L b e1 g1
              = bind_e (run_iteration L 0 e1 g1) (\<lambda>(x, gx). run_loop L b 1 x gx)
          \<and> run L (a + b) e g
              = bind_e (run_iteration L a e1 g1) (\<lambda>(x, gx). run_loop L (a + b) (a + 1) x gx)
          \<and> (\<forall>x gx. run_iteration L 0 e1 g1 = Inr (x, gx)
                 \<longrightarrow> swap_total x = swap_total e1 + 1)
          \<and> (\<forall>x gx. run_iteration L a e1 g1 = Inr (x, gx)
                 \<longrightarrow> swap_total x = swap_total e1))"
proof -
  note first = run_swap_total [OF assms(4) assms(2) assms(1)]
  have K1: "1 < num_chains e1"
    using first(2) assms(1) by simp
  have per_iteration: "swap_total x = swap_total e1 + (if i mod 10 = 0 then 1 else 0)"
    if "run_iteration L i e1 g1 = Inr (x, gx)" for i x gx
    using run_iteration_frame(1) [OF that] K1 by simp
  have continues: "run L (a + b) e g = run_loop L (a + b) a e1 g1"
    by (rule run_continues_at [OF assms(2,3,4)])
  have same: "run L (a + b) e g = run L b e1 g1" if "a mod 10 = 0 \<or> b = 0"
  proof (cases "b = 0")
    case True
    have "run L 0 e1 g1 = Inr (e1, g1)"
      unfolding run_def by (subst run_loop.simps) simp
    then show ?thesis
      using True assms(4) by simp
  next
    case False
    then have "a mod 10 = 0"
      using that by simp
    from run_split_at_multiple [OF assms(2,3) this, of L e g] show ?thesis
      using assms(4) by simp
  qed
  have second_first: "run L b e1 g1
        = bind_e (run_iteration L 0 e1 g1) (\<lambda>(x, gx). run_loop L b 1 x gx)" if "0 < b"
    using run_loop_first [of 0 b L e1 g1] that by (simp add: run_def)
  have single_next: "run L (a + b) e g
        = bind_e (run_iteration L a e1 g1) (\<lambda>(x, gx). run_loop L (a + b) (a + 1) x gx)"
    if "0 < b"
    using run_loop_first [of a "a + b" L e1 g1] that continues by simp
  show ?thesis
    using first(1) per_iteration continues same second_first single_next
    by (simp add: run_def)
qed

theorem swap_schedule_per_call_witness:
  "swap_total (fst after_1) = 1 \<and> swap_total (fst after_1_1) = 2 \<and> swap_total (fst after_2) = 1"
proof -
  have one: "swap_total (fst after_1) = 1" and K: "1 < num_chains (fst after_1)"
    using swap_schedule_per_call [of "fst start2" 1 0 toy_stdlib "snd start2" "fst after_1"
        "snd after_1"] start2_facts after_1_returns
      run_swap_total(2) [of toy_stdlib 1 "fst start2" "snd start2" "fst after_1" "snd after_1"]
    by simp_all
  have "swap_total (fst after_1_1) = 2"
    using swap_schedule_per_call [of "fst after_1" 1 0 toy_stdlib "snd after_1" "fst after_1_1"
        "snd after_1_1"] one K after_1_1_returns
    by simp
  moreover have "swap_total (fst after_2) = 1"
    using swap_schedule_per_call [of "fst start2" 2 0 toy_stdlib "snd start2" "fst after_2"
        "snd after_2"] start2_facts after_2_returns
    by simp
  ultimately show ?thesis
    using one by simp
qed

text \<open>
  C10 as stated fails in its last clause: after ten iterations the cadence of a second call
  is that of the single call. On the two-chain ensemble, \<open>run(10)\<close> followed by \<open>run(1)\<close> is
  \<open>run(11)\<close>, which returns.
\<close>

lemma run_11_returns: "\<not> isl (run toy_stdlib 11 (fst start2) (snd start2))"
proof -
  have "\<exists>x. run toy_stdlib 11 (fst start2) (snd start2) = Inr x"
    by (simp add: start2_def eval_defs)
  then show ?thesis
    by auto
qed

theorem split_after_ten_is_single_run:
  "run toy_stdlib (10 + 1) (fst start2) (snd start2)
     = bind_e (run toy_stdlib 10 (fst start2) (snd start2)) (\<lambda>(e1, g1). run toy_stdlib 1 e1 g1)
   \<and> \<not> isl (run toy_stdlib (10 + 1) (fst start2) (snd start2))
   \<and> 1 < num_chains (fst start2)"
  using run_split_at_multiple [of 10 1 toy_stdlib "fst start2" "snd start2"] run_11_returns
  by (simp add: start2_facts)

section \<open>The replica swap\<close>



section \<open>The domain invariant\<close>

lemma isfinite_iff: "isfinite x \<longleftrightarrow> (\<exists>r. x = Fin r)"
  by (cases x) simp_all

lemma open_unit_finite: "Fin 0 < x \<Longrightarrow> x < Fin 1 \<Longrightarrow> isfinite x"
  by (cases x) simp_all

lemma reflect_unit_body_finite: "isfinite x \<Longrightarrow> isfinite (reflect_unit_body x)"
  by (cases x) (simp_all add: reflect_unit_body_def fl_defs Let_def)

lemma reflect_unit_result:
  assumes "reflect_unit x = Some y"
  shows "isfinite x \<longrightarrow> Fin 0 < y \<and> y < Fin 1"
proof (rule reflect_unit.raw_induct
    [where P = "\<lambda>x y. isfinite x \<longrightarrow> Fin 0 < y \<and> y < Fin 1", OF _ assms])
  fix f :: "fl \<Rightarrow> fl option" and x' y' :: fl
  assume IH: "\<And>x y. f x = Some y \<Longrightarrow> isfinite x \<longrightarrow> Fin 0 < y \<and> y < Fin 1"
  assume unfolded:
    "(if x' \<le> Fin 0 \<or> Fin 1 \<le> x' then f (reflect_unit_body x') else Some x') = Some y'"
  show "isfinite x' \<longrightarrow> Fin 0 < y' \<and> y' < Fin 1"
  proof
    assume fin: "isfinite x'"
    show "Fin 0 < y' \<and> y' < Fin 1"
    proof (cases "x' \<le> Fin 0 \<or> Fin 1 \<le> x'")
      case True
      with unfolded have "f (reflect_unit_body x') = Some y'"
        by simp
      from IH [OF this] reflect_unit_body_finite [OF fin] show ?thesis
        by simp
    next
      case False
      with unfolded have "y' = x'"
        by simp
      with False fin show ?thesis
        by (cases x') (auto simp: fl_defs)
    qed
  qed
qed

lemma reflect_zero_result:
  assumes "reflect_zero x = Some y"
  shows "isfinite x \<longrightarrow> Fin 0 < y \<and> isfinite y"
proof (rule reflect_zero.raw_induct
    [where P = "\<lambda>x y. isfinite x \<longrightarrow> Fin 0 < y \<and> isfinite y", OF _ assms])
  fix f :: "fl \<Rightarrow> fl option" and x' y' :: fl
  assume IH: "\<And>x y. f x = Some y \<Longrightarrow> isfinite x \<longrightarrow> Fin 0 < y \<and> isfinite y"
  assume unfolded: "(if x' \<le> Fin 0 then f (- x') else Some x') = Some y'"
  show "isfinite x' \<longrightarrow> Fin 0 < y' \<and> isfinite y'"
  proof
    assume fin: "isfinite x'"
    show "Fin 0 < y' \<and> isfinite y'"
    proof (cases "x' \<le> Fin 0")
      case True
      with unfolded have "f (- x') = Some y'"
        by simp
      moreover have "isfinite (- x')"
        using fin by (cases x') simp_all
      ultimately show ?thesis
        using IH by blast
    next
      case False
      with unfolded have "y' = x'"
        by simp
      with False fin show ?thesis
        by (cases x') (auto simp: fl_defs)
    qed
  qed
qed

lemma loop_result_Inr: "loop_result r = Inr y \<longleftrightarrow> r = Some y"
  by (cases r) (simp_all add: loop_result_def)

lemma vec_at_in_set: "vec_at xs i = Inr x \<Longrightarrow> x \<in> set xs"
  by (auto simp: vec_at_def split: if_splits)

lemma perturb_finite: "isfinite a \<Longrightarrow> isfinite s \<Longrightarrow> isfinite (a + s * Fin z)"
  by (cases a; cases s) simp_all

lemma propose_Inr_elim:
  assumes "propose L pd cur g = Inr (p', pd', g')"
  obtains s0 s1 s2 s3 z0 z1 z2 z3 where
    "s0 \<in> set (step_sizes pd)" "s1 \<in> set (step_sizes pd)" "s2 \<in> set (step_sizes pd)"
    "s3 \<in> set (step_sizes pd)"
    "reflect_unit (floor_p cur + s0 * Fin z0) = Some (floor_p p')"
    "reflect_unit (ceiling_p cur + s1 * Fin z1) = Some (ceiling_p p')"
    "ec50 p' = ec50 cur + s2 * Fin z2"
    "reflect_zero (slope cur + s3 * Fin z3) = Some (slope p')"
    "step_sizes pd' = step_sizes pd"
proof -
  obtain z0 n1 g1 where d0: "normal_draw L (normal_dist pd) g = (z0, n1, g1)"
    by (cases "normal_draw L (normal_dist pd) g")
  obtain z1 n2 g2 where d1: "normal_draw L n1 g1 = (z1, n2, g2)"
    by (cases "normal_draw L n1 g1")
  obtain z2 n3 g3 where d2: "normal_draw L n2 g2 = (z2, n3, g3)"
    by (cases "normal_draw L n2 g2")
  obtain z3 n4 g4 where d3: "normal_draw L n3 g3 = (z3, n4, g4)"
    by (cases "normal_draw L n3 g3")
  from assms obtain s0 s1 s2 s3 fp cp sp where
    "vec_at (step_sizes pd) 0 = Inr s0" "vec_at (step_sizes pd) 1 = Inr s1"
    "vec_at (step_sizes pd) 2 = Inr s2" "vec_at (step_sizes pd) 3 = Inr s3"
    "reflect_unit (floor_p cur + s0 * Fin z0) = Some fp"
    "reflect_unit (ceiling_p cur + s1 * Fin z1) = Some cp"
    "reflect_zero (slope cur + s3 * Fin z3) = Some sp"
    "p' = \<lparr>floor_p = fp, ceiling_p = cp, ec50 = ec50 cur + s2 * Fin z2, slope = sp\<rparr>"
    "pd' = pd\<lparr>normal_dist := n4\<rparr>"
    unfolding propose_def d0 d1 d2 d3 prod.case Let_def bind_e_Inr_iff loop_result_Inr
    by auto
  then show ?thesis
    using that [of s0 s1 s2 s3 z0 z1 z2 z3] by (auto dest: vec_at_in_set)
qed

lemma propose_in_domain:
  assumes "propose L pd cur g = Inr (p', pd', g')"
    and "isfinite (floor_p cur)" and "isfinite (ceiling_p cur)" and "isfinite (ec50 cur)"
    and "isfinite (slope cur)" and "list_all isfinite (step_sizes pd)"
  shows "in_domain p'" and "isfinite (slope p')" and "step_sizes pd' = step_sizes pd"
proof -
  from assms(1) obtain s0 s1 s2 s3 z0 z1 z2 z3 where
    s: "s0 \<in> set (step_sizes pd)" "s1 \<in> set (step_sizes pd)" "s2 \<in> set (step_sizes pd)"
    "s3 \<in> set (step_sizes pd)"
    and f: "reflect_unit (floor_p cur + s0 * Fin z0) = Some (floor_p p')"
    and c: "reflect_unit (ceiling_p cur + s1 * Fin z1) = Some (ceiling_p p')"
    and e: "ec50 p' = ec50 cur + s2 * Fin z2"
    and sl: "reflect_zero (slope cur + s3 * Fin z3) = Some (slope p')"
    and pd: "step_sizes pd' = step_sizes pd"
    by (rule propose_Inr_elim)
  have fin: "isfinite s0" "isfinite s1" "isfinite s2" "isfinite s3"
    using s assms(6) by (simp_all add: list_all_iff)
  show "in_domain p'"
    using reflect_unit_result [OF f] reflect_unit_result [OF c] reflect_zero_result [OF sl] e
      perturb_finite fin assms(2-5)
    by (simp add: in_domain_def)
  show "isfinite (slope p')"
    using reflect_zero_result [OF sl] perturb_finite fin assms(5) by simp
  show "step_sizes pd' = step_sizes pd"
    by (fact pd)
qed

lemma adapt_finite:
  assumes "list_all isfinite (step_sizes pd)"
  shows "list_all isfinite (step_sizes (adapt pd it r))"
proof -
  have "isfinite (std_max (Fin 0.001) (std_min (s * Fin c) (Fin 1)))" if "isfinite s" for s c
    using that by (cases s) (simp_all add: std_max_def std_min_def)
  then show ?thesis
    using assms by (auto simp: adapt_def Let_def list_all_iff)
qed

lemma in_domain_finite:
  assumes "in_domain p"
  shows "isfinite (floor_p p)" and "isfinite (ceiling_p p)" and "isfinite (ec50 p)"
  using assms by (auto simp: in_domain_def intro: open_unit_finite)

lemma step_inv:
  assumes "chain_inv c" and "step L c d pri g = Inr (c', g')"
  shows "chain_inv c'"
  using assms(2)
proof (rule step_Inr_elim)
  fix proposed pd g1 plp u
  assume pr: "propose L (proposal c) (current c) g = Inr (proposed, pd, g1)"
    and cur': "current c' = (if flog (Fin u) < plp - current_log_posterior c
                       then proposed else current c)"
    and pd': "proposal c' = (if (total c + 1) mod 50 = 0
                        then adapt pd (total c + 1)
                               (of_int32 (accepted c') / of_int32 (total c + 1))
                        else pd)"
  have cur: "in_domain (current c)" "isfinite (slope (current c))"
    and sizes: "list_all isfinite (step_sizes (proposal c))"
    using assms(1) by (simp_all add: chain_inv_def)
  note pfacts = propose_in_domain [OF pr in_domain_finite [OF cur(1)] cur(2) sizes]
  have "list_all isfinite (step_sizes pd)"
    using pfacts(3) sizes by simp
  then have "list_all isfinite (step_sizes (proposal c'))"
    unfolding pd' by (simp add: adapt_finite)
  moreover have "in_domain (current c') \<and> isfinite (slope (current c'))"
    unfolding cur' using pfacts(1,2) cur by simp
  ultimately show ?thesis
    by (simp add: chain_inv_def)
qed

lemma step_all_inv:
  "list_all chain_inv cs \<Longrightarrow> step_all L d pri cs g = Inr (cs', g') \<Longrightarrow> list_all chain_inv cs'"
proof (induction cs arbitrary: g cs' g')
  case Nil
  then show ?case by simp
next
  case (Cons c cs)
  from Cons.prems(2) obtain c1 g1 cs1 where
    st: "step L c d pri g = Inr (c1, g1)" and rest: "step_all L d pri cs g1 = Inr (cs1, g')"
    and cs': "cs' = c1 # cs1"
    by (auto simp: bind_e_Inr_iff)
  show ?case
    using step_inv [OF _ st] Cons.IH [OF _ rest] Cons.prems(1) cs' by simp
qed

lemma set_current_inv:
  assumes "set_current L c p d pri = Inr c'" and "chain_inv c" and "in_domain p"
    and "isfinite (slope p)"
  shows "chain_inv c'"
  using assms by (auto simp: set_current_def bind_e_Inr_iff chain_inv_def)

lemma list_all_update: "list_all P xs \<Longrightarrow> P a \<Longrightarrow> list_all P (xs[i := a])"
  using set_update_subset_insert [of xs i a] by (auto simp: list_all_iff)

lemma list_all_update2:
  "list_all P xs \<Longrightarrow> P a \<Longrightarrow> P b \<Longrightarrow> list_all P (xs[i := a, j := b])"
  by (intro list_all_update)

lemma attempt_swap_inv:
  assumes "list_all chain_inv (chains e)" and "attempt_swap L e g = Inr (e', g')"
  shows "list_all chain_inv (chains e')"
  using assms(2)
proof (rule attempt_swap_Inr_elim)
  fix i g1 u ci cj tj ti
  assume ci: "vec_at (chains e) i = Inr ci" and cj: "vec_at (chains e) (i + 1) = Inr cj"
  assume acc: "flog (Fin u) < (current_log_posterior ci - current_log_posterior cj)
                          * (Fin 1 / tj - Fin 1 / ti)
         \<Longrightarrow> \<exists>ci' cj'. set_current L ci (current cj) (data e) (priors e) = Inr ci'
               \<and> set_current L cj (current ci) (data e) (priors e) = Inr cj'
               \<and> e' = e\<lparr>swap_total := swap_total e + 1,
                         chains := (chains e)[nat i := ci', nat (i + 1) := cj'],
                         swap_accepted := swap_accepted e + 1\<rparr>"
  assume rej: "\<not> flog (Fin u) < (current_log_posterior ci - current_log_posterior cj)
                          * (Fin 1 / tj - Fin 1 / ti)
         \<Longrightarrow> e' = e\<lparr>swap_total := swap_total e + 1\<rparr>"
  have inv: "chain_inv ci" "chain_inv cj"
    using assms(1) vec_at_in_set [OF ci] vec_at_in_set [OF cj] by (simp_all add: list_all_iff)
  show ?thesis
  proof (cases "flog (Fin u) < (current_log_posterior ci - current_log_posterior cj)
                          * (Fin 1 / tj - Fin 1 / ti)")
    case True
    from acc [OF this] obtain ci' cj' where
      si: "set_current L ci (current cj) (data e) (priors e) = Inr ci'"
      and sj: "set_current L cj (current ci) (data e) (priors e) = Inr cj'"
      and e': "chains e' = (chains e)[nat i := ci', nat (i + 1) := cj']"
      by auto
    have "chain_inv ci'" "chain_inv cj'"
      using set_current_inv [OF si inv(1)] set_current_inv [OF sj inv(2)] inv
      by (simp_all add: chain_inv_def)
    then show ?thesis
      unfolding e' using assms(1) by (intro list_all_update2)
  next
    case False
    from rej [OF this] show ?thesis
      using assms(1) by simp
  qed
qed

lemma run_iteration_inv:
  assumes "list_all chain_inv (chains e)" and "run_iteration L iter e g = Inr (e', g')"
  shows "list_all chain_inv (chains e')"
proof -
  obtain chs g1 where sa: "step_all L (data e) (priors e) (chains e) g = Inr (chs, g1)"
    and rest: "(if iter mod 10 = 0 \<and> 1 < num_chains e
                then attempt_swap L (e\<lparr>chains := chs\<rparr>) g1
                else Inr (e\<lparr>chains := chs\<rparr>, g1)) = Inr (e', g')"
    using assms(2) by (auto simp: run_iteration_def bind_e_Inr_iff Let_def)
  have chs: "list_all chain_inv (chains (e\<lparr>chains := chs\<rparr>))"
    using step_all_inv [OF assms(1) sa] by simp
  show ?thesis
  proof (cases "iter mod 10 = 0 \<and> 1 < num_chains e")
    case True
    then have "attempt_swap L (e\<lparr>chains := chs\<rparr>) g1 = Inr (e', g')"
      using rest by simp
    from attempt_swap_inv [OF chs this] show ?thesis .
  next
    case False
    then have "e' = e\<lparr>chains := chs\<rparr>"
      using rest by (auto split: if_splits)
    then show ?thesis
      using chs by simp
  qed
qed

lemma run_loop_inv:
  assumes "run_loop L n iter e g = Inr (e', g')" and "list_all chain_inv (chains e)"
  shows "list_all chain_inv (chains e')"
  using assms
proof (induction L n iter e g rule: run_loop.induct)
  case (1 L n iter e g)
  show ?case
  proof (cases "iter < n")
    case False
    with "1.prems" show ?thesis
      by (subst (asm) run_loop.simps) simp
  next
    case True
    with "1.prems"(1) obtain e1 g1 where
      it: "run_iteration L iter e g = Inr (e1, g1)"
      and rest: "run_loop L n (iter + 1) e1 g1 = Inr (e', g')"
      by (subst (asm) run_loop.simps) (auto simp: bind_e_Inr_iff)
    show ?thesis
      using "1.IH" [OF True rest] run_iteration_inv [OF "1.prems"(2) it] by simp
  qed
qed

lemma init_chains_inv:
  assumes "uniform_real_ok L"
  shows "init_chains L d p temps g = Inr (chs, g') \<Longrightarrow> list_all chain_inv chs"
proof (induction temps arbitrary: g chs g')
  case Nil
  then show ?case by simp
next
  case (Cons t ts)
  obtain f g1 where f: "uniform_real L (1 / 100) (1 / 2) g = (f, g1)"
    by (cases "uniform_real L (1 / 100) (1 / 2) g")
  obtain c g2 where c: "uniform_real L (1 / 10) (9 / 10) g1 = (c, g2)"
    by (cases "uniform_real L (1 / 10) (9 / 10) g1")
  obtain e g3 where e: "uniform_real L (- 2) 2 g2 = (e, g3)"
    by (cases "uniform_real L (- 2) 2 g2")
  obtain s g4 where s: "uniform_real L (1 / 10) 3 g3 = (s, g4)"
    by (cases "uniform_real L (1 / 10) 3 g3")
  have range: "1 / 100 \<le> f" "f < 1 / 2" "1 / 10 \<le> c" "c < 9 / 10" "1 / 10 \<le> s"
    using assms [unfolded uniform_real_ok_def, rule_format, of "1 / 100" "1 / 2" g]
      assms [unfolded uniform_real_ok_def, rule_format, of "1 / 10" "9 / 10" g1]
      assms [unfolded uniform_real_ok_def, rule_format, of "1 / 10" 3 g3]
    by (simp_all add: f c s)
  from Cons.prems f c e s obtain ch chs1 where
    ch: "MCMCChain_new L t \<lparr>floor_p = Fin f, ceiling_p = Fin c, ec50 = Fin e, slope = Fin s\<rparr>
           d p = Inr ch"
    and rest: "init_chains L d p ts g4 = Inr (chs1, g')" and chs: "chs = ch # chs1"
    by (auto simp: bind_e_Inr_iff)
  have "chain_inv ch"
    using ch range
    by (auto simp: MCMCChain_new_def bind_e_Inr_iff chain_inv_def in_domain_def
        ProposalDistribution_new_def list_all_iff)
  then show ?case
    using Cons.IH [OF rest] chs by simp
qed

lemma construct_inv:
  assumes "uniform_real_ok L" and "construct L K d p g = Inr (e, g')"
  shows "list_all chain_inv (chains e)"
proof -
  from assms(2) obtain chs where
    "init_chains L d p (map (ladder_entry K) [0..K - 1]) g = Inr (chs, g')" "chains e = chs"
    by (auto simp: construct_def bind_e_Inr_iff Let_def split: if_splits)
  then show ?thesis
    using init_chains_inv [OF assms(1)] by simp
qed

lemma not_less_NInf_minus: "\<not> x < NInf - c"
  by (cases c; cases x) (simp_all add: fl_defs)

lemma step_rejects_minus_infinity:
  assumes "propose L (proposal c) (current c) g = Inr (p', pd, g1)"
    and "log_posterior_tempered L p' d pri (temperature c) = Inr NInf"
    and "step L c d pri g = Inr (c', g')"
  shows "current c' = current c \<and> current_log_posterior c' = current_log_posterior c
         \<and> accepted c' = accepted c"
  using assms(3)
proof (rule step_Inr_elim)
  fix proposed pd2 g2 plp u
  assume "propose L (proposal c) (current c) g = Inr (proposed, pd2, g2)"
    and "log_posterior_tempered L proposed d pri (temperature c) = Inr plp"
  with assms(1,2) have plp: "plp = NInf"
    by simp
  assume "current c' = (if flog (Fin u) < plp - current_log_posterior c
                       then proposed else current c)"
    and "current_log_posterior c' = (if flog (Fin u) < plp - current_log_posterior c
                       then plp else current_log_posterior c)"
    and "accepted c' = (if flog (Fin u) < plp - current_log_posterior c
                       then accepted c + 1 else accepted c)"
  then show ?thesis
    unfolding plp by (simp add: not_less_NInf_minus del: flog.simps)
qed

section \<open>The chains stay in the domain\<close>

lemma toy_uniform_real_ok: "uniform_real_ok toy_stdlib"
proof -
  have "a \<le> a + (b - a) * real (g mod 3) / 4 \<and> a + (b - a) * real (g mod 3) / 4 < b"
    if "a < b" for a b :: real and g :: nat
  proof -
    have "g mod 3 < 3"
      by simp
    then have r: "0 \<le> real (g mod 3)" "real (g mod 3) \<le> 2"
      by simp_all
    have "(b - a) * real (g mod 3) \<le> (b - a) * 2"
      using r that by (intro mult_left_mono) simp_all
    moreover have "0 \<le> (b - a) * real (g mod 3)"
      using r that by simp
    ultimately show ?thesis
      using that by simp
  qed
  then show ?thesis
    by (simp add: uniform_real_ok_def toy_stdlib_def)
qed

lemma bad_start_returns: "construct toy_stdlib 2 Data_default invalid_priors 0 = Inr bad_start"
proof -
  have "\<exists>x. construct toy_stdlib 2 Data_default invalid_priors 0 = Inr x"
    by (simp add: eval_defs invalid_priors_def)
  then show ?thesis
    by (auto simp: bad_start_def)
qed

lemma bad_step_returns:
  "step toy_stdlib (hd (chains (fst bad_start))) Data_default invalid_priors (snd bad_start)
     = Inr bad_step"
proof -
  have "\<exists>x. step toy_stdlib (hd (chains (fst bad_start))) Data_default invalid_priors
               (snd bad_start) = Inr x"
    by (simp add: bad_start_def eval_defs invalid_priors_def)
  then show ?thesis
    by (auto simp: bad_step_def)
qed

lemma bad_proposal:
  "\<exists>p' pd g1.
     propose toy_stdlib (proposal (hd (chains (fst bad_start))))
       (current (hd (chains (fst bad_start)))) (snd bad_start) = Inr (p', pd, g1)
     \<and> log_posterior_tempered toy_stdlib p' Data_default invalid_priors
         (temperature (hd (chains (fst bad_start)))) = Inr NInf"
  by (simp add: bad_start_def eval_defs invalid_priors_def)

text \<open>
  C3: the invariant of the chains (current \<open>floor\<close> and \<open>ceiling\<close> strictly between \<open>0\<close> and
  \<open>1\<close>, \<open>slope > 0\<close>, \<open>ec50\<close> finite) holds for every chain the constructor builds, given that
  the uniform draws lie in their ranges; it is kept by every step, by every swap attempt
  and by every \<open>run\<close> call that returns. A proposal whose tempered log-posterior is \<open>-\<infinity>\<close> is
  rejected by the Metropolis comparison, whatever the cached log-posterior and the uniform
  draw are: the step keeps the current state, its cached log-posterior and the count of
  accepted proposals.
\<close>

theorem chains_stay_in_domain:
  "(uniform_real_ok L \<and> construct L K d p g = Inr (e, g') \<longrightarrow> list_all chain_inv (chains e))
   \<and> (chain_inv c \<and> step L c d p g = Inr (c', g') \<longrightarrow> chain_inv c')
   \<and> (list_all chain_inv (chains e) \<and> attempt_swap L e g = Inr (e', g')
        \<longrightarrow> list_all chain_inv (chains e'))
   \<and> (list_all chain_inv (chains e) \<and> run L n e g = Inr (e', g')
        \<longrightarrow> list_all chain_inv (chains e'))
   \<and> (chain_inv c
        \<longrightarrow> Fin 0 < floor_p (current c) \<and> floor_p (current c) < Fin 1
            \<and> Fin 0 < ceiling_p (current c) \<and> ceiling_p (current c) < Fin 1
            \<and> Fin 0 < slope (current c) \<and> isfinite (ec50 (current c)))
   \<and> (propose L (proposal c) (current c) g = Inr (p', pd, g1)
        \<and> log_posterior_tempered L p' d p (temperature c) = Inr NInf
        \<and> step L c d p g = Inr (c', g')
        \<longrightarrow> current c' = current c \<and> current_log_posterior c' = current_log_posterior c
            \<and> accepted c' = accepted c)"
  using construct_inv [of L K d p g e g'] step_inv [of c L d p g c' g']
    attempt_swap_inv [of e L g e' g'] run_loop_inv [of L n 0 e g e' g']
    step_rejects_minus_infinity [of L c g p' pd g1 d p c' g']
  by (simp add: run_def chain_inv_def in_domain_def)

theorem chains_stay_in_domain_witness:
  "list_all chain_inv (chains (fst start2))
   \<and> list_all chain_inv (chains (fst after_1))
   \<and> current (fst bad_step) = current (hd (chains (fst bad_start)))"
proof -
  obtain p' pd g1 where
    pr: "propose toy_stdlib (proposal (hd (chains (fst bad_start))))
       (current (hd (chains (fst bad_start)))) (snd bad_start) = Inr (p', pd, g1)"
    and lp: "log_posterior_tempered toy_stdlib p' Data_default invalid_priors
         (temperature (hd (chains (fst bad_start)))) = Inr NInf"
    using bad_proposal by blast
  have c: "construct toy_stdlib 2 Data_default priors0 0 = Inr (fst start2, snd start2)"
    using start2_returns by simp
  have r: "run toy_stdlib 1 (fst start2) (snd start2) = Inr (fst after_1, snd after_1)"
    using after_1_returns by simp
  have s: "step toy_stdlib (hd (chains (fst bad_start))) Data_default invalid_priors
             (snd bad_start) = Inr (fst bad_step, snd bad_step)"
    using bad_step_returns by simp
  have start: "list_all chain_inv (chains (fst start2))"
    using chains_stay_in_domain [where L = toy_stdlib and K = 2 and d = Data_default
        and p = priors0 and g = 0 and e = "fst start2" and g' = "snd start2"]
      toy_uniform_real_ok c by blast
  have "list_all chain_inv (chains (fst after_1))"
    using chains_stay_in_domain [where L = toy_stdlib and e = "fst start2"
        and g = "snd start2" and e' = "fst after_1" and g' = "snd after_1" and n = 1]
      start r
    by blast
  moreover have "current (fst bad_step) = current (hd (chains (fst bad_start)))"
    using chains_stay_in_domain [where L = toy_stdlib and d = Data_default
        and p = invalid_priors and g = "snd bad_start" and c = "hd (chains (fst bad_start))"
        and c' = "fst bad_step" and g' = "snd bad_step" and p' = p' and pd = pd and ?g1.0 = g1]
      pr lp s
    by blast
  ultimately show ?thesis
    using start by blast
qed

section \<open>Diagnostics on short traces\<close>

lemma post_warmup_exact:
  assumes "- (2 ^ 31) \<le> int (length s) - sint w" and "int (length s) - sint w < 2 ^ 31"
  shows "post_warmup s w = int (length s) - sint w"
proof -
  have "sint (word_of_nat (length s) - w :: 32 word)
          = signed_take_bit 31 (sint (word_of_nat (length s) :: 32 word) - sint w)"
    by (simp add: sint_word_ariths)
  also have "sint (word_of_nat (length s) :: 32 word) = signed_take_bit 31 (int (length s))"
    using signed_of_nat [where 'a = int and 'b = 32, of "length s"] by simp
  also have "signed_take_bit 31 (signed_take_bit 31 (int (length s)) - sint w)
               = signed_take_bit 31 (int (length s) - sint w)"
  proof -
    have "signed_take_bit 31 (sint w) = sint w"
      using sint_ge [of w] sint_lt [of w] by (intro signed_take_bit_int_eq_self) simp_all
    then show ?thesis
      using signed_take_bit_diff [of 31 "int (length s)" "sint w"] by simp
  qed
  also have "\<dots> = int (length s) - sint w"
    using assms by (intro signed_take_bit_int_eq_self) simp_all
  finally show ?thesis
    by (simp add: post_warmup_def vec_size_def)
qed

lemma post_warmup_few:
  assumes "int (length s) - sint w < 100"
  shows "post_warmup s w < 100"
proof -
  have "sint w < 2 ^ 31"
    using sint_lt [of w] by simp
  then have "- (2 ^ 31) \<le> int (length s) - sint w"
    by simp
  moreover have "int (length s) - sint w < 2 ^ 31"
    using assms by simp
  ultimately show ?thesis
    using post_warmup_exact [of s w] assms by simp
qed

text \<open>
  C8: whenever the cold chain's trace holds fewer than 100 samples after the warm-up \<open>w\<close>
  (in particular when \<open>w\<close> is at least the length of the trace), \<open>compute_rhat\<close> returns
  \<open>[1, 1, 1, 1]\<close> and \<open>compute_ess\<close> returns \<open>[0, 0, 0, 0]\<close>; both return normally, whatever
  the trace holds. The warm-up is any 32-bit \<open>int\<close> and the trace any list: the count
  \<open>samples.size() - warmup\<close> cannot wrap around below 100.
\<close>

theorem few_samples_sentinels:
  assumes "chains e = c0 # cs" and "int (length (samples c0)) - sint w < 100"
  shows "compute_rhat e w = Inr [Fin 1, Fin 1, Fin 1, Fin 1]
         \<and> compute_ess e w = Inr [Fin 0, Fin 0, Fin 0, Fin 0]"
  using assms post_warmup_few [of "samples c0" w]
  by (simp add: compute_rhat_def compute_ess_def)

theorem few_samples_sentinels_witness:
  "compute_rhat (ensemble_with (replicate 10000 theta0)) 9950
     = Inr [Fin 1, Fin 1, Fin 1, Fin 1]
   \<and> compute_ess (ensemble_with (replicate 10000 theta0)) 20000
     = Inr [Fin 0, Fin 0, Fin 0, Fin 0]"
  using few_samples_sentinels [of "ensemble_with (replicate 10000 theta0)"
          "chain_with (replicate 10000 theta0)" "[]" 9950]
        few_samples_sentinels [of "ensemble_with (replicate 10000 theta0)"
          "chain_with (replicate 10000 theta0)" "[]" 20000]
  by (simp add: ensemble_with_def chain_with_def)

section \<open>Split R-hat\<close>

lemma collect_range_take_drop:
  assumes "a \<le> b" and "b \<le> length s"
  shows "collect_range s (int a) (int b) acc = Inr (acc @ take (b - a) (drop a s))"
  using assms
proof (induction "b - a" arbitrary: a acc)
  case 0
  then show ?case
    by (subst collect_range.simps) simp
next
  case (Suc m)
  then have lt: "a < b" and a_len: "a < length s"
    by simp_all
  have at: "vec_at s (int a) = Inr (s ! a)"
    using a_len by (simp add: vec_at_def)
  have IH: "collect_range s (int (Suc a)) (int b) (acc @ [s ! a])
              = Inr ((acc @ [s ! a]) @ take (b - Suc a) (drop (Suc a) s))"
    using Suc.hyps(1) [of "Suc a" "acc @ [s ! a]"] Suc.hyps(2) Suc.prems by simp
  have split: "take (b - a) (drop a s) = s ! a # take (b - Suc a) (drop (Suc a) s)"
    using lt a_len by (metis Cons_nth_drop_Suc Suc_diff_Suc take_Suc_Cons)
  have plus1: "int a + 1 = int (Suc a)"
    by simp
  show ?case
    using lt by (subst collect_range.simps) (simp only: at IH split plus1 bind_e_simps, simp)
qed

lemma collect_to_end_drop: "collect_to_end s (int a) acc = acc @ drop a s"
proof (induction "length s - a" arbitrary: a acc)
  case 0
  then show ?case
    by (subst collect_to_end.simps) simp
next
  case (Suc m)
  then have a_len: "a < length s"
    by simp
  have IH: "collect_to_end s (int (Suc a)) (acc @ [s ! a]) = (acc @ [s ! a]) @ drop (Suc a) s"
    using Suc.hyps(1) [of "Suc a" "acc @ [s ! a]"] Suc.hyps(2) by simp
  have plus1: "int a + 1 = int (Suc a)"
    by simp
  have "collect_to_end s (int a) acc = collect_to_end s (int a + 1) (acc @ [s ! a])"
    using a_len by (subst collect_to_end.simps) simp
  also have "\<dots> = (acc @ [s ! a]) @ drop (Suc a) s"
    unfolding plus1 by (rule IH)
  also have "\<dots> = acc @ drop a s"
    using a_len by (simp add: Cons_nth_drop_Suc)
  finally show ?case .
qed

lemma of_size_vec_size: "length xs < 2 ^ 32 \<Longrightarrow> of_size (vec_size xs) = Fin (of_nat (length xs))"
  by (simp add: of_size_def vec_size_def unat_of_nat)

lemma of_size_vec_size_pred:
  assumes "1 \<le> length xs" and "length xs < 2 ^ 32"
  shows "of_size (vec_size xs - 1) = Fin (of_nat (length xs - 1))"
proof -
  have eq: "vec_size xs - 1 = (word_of_nat (length xs - 1) :: 32 word)"
    using assms by (simp add: vec_size_def)
  have "unat (word_of_nat (length xs - 1) :: 32 word) = length xs - 1"
    unfolding unat_of_nat using assms by simp
  then show ?thesis
    unfolding eq of_size_def by (simp only:)
qed

lemma compute_rhat_param_formula:
  assumes "2 \<le> length x" and "length x < 2 ^ 32"
  shows "compute_rhat_param (take (length x div 2) x) (drop (length x div 2) x)
         = split_rhat_amended x"
proof -
  let ?h = "length x div 2"
  have h1: "1 \<le> length (take ?h x)" "length (take ?h x) < 2 ^ 32" "length (take ?h x) = ?h"
    using assms by simp_all
  have h2: "1 \<le> length (drop ?h x)" "length (drop ?h x) < 2 ^ 32"
    using assms by simp_all
  have real_pred: "Fin (real ?h) - Fin 1 = Fin (real (?h - 1))"
    using h1 by (simp add: fl_defs)
  show ?thesis
    unfolding compute_rhat_param_def compute_var_def accumulate_def split_rhat_amended_def
      split_rhat_formula_def mean_fl_def sq_dev_def Let_def
      of_size_vec_size [OF h1(2)] of_size_vec_size [OF h2(2)]
      of_size_vec_size_pred [OF h1(1,2)] of_size_vec_size_pred [OF h2(1,2)]
    by (simp add: real_pred)
qed

lemma compute_rhat_formula:
  assumes "chains e = c0 # cs" and "0 \<le> sint w" and "100 \<le> int (length (samples c0)) - sint w"
    and "length (samples c0) < 2 ^ 31"
  shows "compute_rhat e w
         = Inr (map (\<lambda>f. split_rhat_amended (map f (drop (nat (sint w)) (samples c0))))
                  [floor_p, ceiling_p, ec50, slope])"
proof -
  obtain a where lo: "sint w = int a"
    using assms(2) nonneg_int_cases by blast
  define x where "x = drop a (samples c0)"
  define h where "h = length x div 2"
  have n: "post_warmup (samples c0) w = int (length x)"
    using assms lo by (simp add: post_warmup_exact x_def)
  have n100: "100 \<le> length x"
    using assms lo by (simp add: x_def)
  have half: "int (length x) div 2 = int h"
    by (simp add: h_def)
  have hi: "int a + int h = int (a + h)"
    by simp
  have c1: "collect_range (samples c0) (int a) (int (a + h)) [] = Inr (take h x)"
    using n100 by (subst collect_range_take_drop) (simp_all add: x_def h_def)
  have c2: "collect_to_end (samples c0) (int (a + h)) [] = drop h x"
    using collect_to_end_drop [of "samples c0" "a + h" "[]"] by (simp add: x_def add.commute)
  have param: "compute_rhat_param (map f (take h x)) (map f (drop h x))
                 = split_rhat_amended (map f x)" for f :: "Params \<Rightarrow> fl"
    using compute_rhat_param_formula [of "map f x"] n100 assms(4)
    by (simp add: take_map drop_map h_def x_def)
  have not_few: "\<not> int (length x) < 100"
    using n100 by simp
  have "compute_rhat e w
         = Inr (map (\<lambda>f. split_rhat_amended (map f x)) [floor_p, ceiling_p, ec50, slope])"
    unfolding compute_rhat_def assms(1) vec_at_Cons_0 bind_e_simps Let_def n half lo hi c1 c2
      param
    using not_few by simp
  then show ?thesis
    by (simp add: x_def lo)
qed

lemma foldl_plus_Fin: "foldl (+) (Fin a) (map Fin xs) = Fin (a + sum_list xs)"
  by (induction xs arbitrary: a) (simp_all add: add.assoc)

lemma foldl_sq_Fin:
  "foldl (\<lambda>s x. s + (x - Fin m) * (x - Fin m)) (Fin a) (map Fin xs)
     = Fin (a + (\<Sum>x\<leftarrow>xs. (x - m) * (x - m)))"
  by (induction xs arbitrary: a) (simp_all add: add.assoc fl_defs)

lemma split_rhat_even: "even (length x) \<Longrightarrow> split_rhat_amended x = split_rhat_spec x"
proof -
  assume "even (length x)"
  then have "length x - length x div 2 - 1 = length x div 2 - 1"
    by (auto elim: evenE)
  then show ?thesis
    by (simp add: split_rhat_amended_def split_rhat_spec_def)
qed

text \<open>
  C7, as the code has it: for a cold-chain trace and a warm-up \<open>w \<ge> 0\<close> that leaves
  \<open>n \<ge> 100\<close> samples, \<open>compute_rhat\<close> returns, per parameter, the split-\<open>R\<close> of the
  specification with one change: the sample variance of the second half divides by its
  own size minus one, \<open>n - h - 1\<close>, not by \<open>h - 1\<close>. The means, \<open>W\<close>, \<open>B\<close> (with the factor
  \<open>h\<close>), \<open>V\<close> and the square root are as specified, and for an even \<open>n\<close> the two divisors
  are the same number.
\<close>

theorem compute_rhat_is_split_rhat:
  assumes "chains e = c0 # cs" and "0 \<le> sint w" and "100 \<le> int (length (samples c0)) - sint w"
    and "length (samples c0) < 2 ^ 31"
  shows "compute_rhat e w
           = Inr (map (\<lambda>f. split_rhat_amended (map f (drop (nat (sint w)) (samples c0))))
                    [floor_p, ceiling_p, ec50, slope])
         \<and> (\<forall>x. even (length x) \<longrightarrow> split_rhat_amended x = split_rhat_spec x)"
  using compute_rhat_formula [OF assms] split_rhat_even by blast

theorem compute_rhat_is_split_rhat_witness:
  "compute_rhat (ensemble_with (replicate 10000 theta0)) 5000
     = Inr (map (\<lambda>f. split_rhat_amended (map f (drop 5000 (replicate 10000 theta0))))
              [floor_p, ceiling_p, ec50, slope])"
  using compute_rhat_is_split_rhat [of "ensemble_with (replicate 10000 theta0)"
      "chain_with (replicate 10000 theta0)" "[]" 5000]
  by (simp add: ensemble_with_def chain_with_def)

lemma mean_fl_Fin: "mean_fl (map Fin vs) = Fin (sum_list vs) / Fin (of_nat (length vs))"
  by (simp add: mean_fl_def foldl_plus_Fin)

lemma sq_dev_Fin: "sq_dev (map Fin vs) (Fin m) = Fin (\<Sum>v\<leftarrow>vs. (v - m) * (v - m))"
  by (simp add: sq_dev_def foldl_sq_Fin)

lemma split_rhat_formula_halves:
  assumes "length x1 = (length x1 + length x2) div 2"
  shows "split_rhat_formula d (x1 @ x2) =
     (let h = length x1;
          mu1 = mean_fl x1;
          mu2 = mean_fl x2;
          v1 = sq_dev x1 mu1 / Fin (of_nat (h - 1));
          v2 = sq_dev x2 mu2 / Fin (of_nat d);
          W = (v1 + v2) / Fin 2;
          mu = (mu1 + mu2) / Fin 2;
          B = Fin (of_nat h) * ((mu1 - mu) * (mu1 - mu) + (mu2 - mu) * (mu2 - mu));
          V = (Fin (of_nat (h - 1)) / Fin (of_nat h)) * W + (Fin 1 / Fin (of_nat h)) * B
      in fsqrt (V / W))"
proof -
  have h: "(length x1 + length x2) div 2 = length x1"
    using assms by simp
  have t: "take (length x1) (x1 @ x2) = x1" and d: "drop (length x1) (x1 @ x2) = x2"
    by simp_all
  show ?thesis
    unfolding split_rhat_formula_def Let_def length_append h t d ..
qed

lemma split_rhat_formula_Fin:
  assumes "length a = (length a + length b) div 2"
    and "sum_list a / of_nat (length a) = m1" and "sum_list b / of_nat (length b) = m2"
    and "a \<noteq> []" and "b \<noteq> []"
  shows "split_rhat_formula d (map Fin a @ map Fin b) =
     (let h = length a;
          v1 = Fin (\<Sum>v\<leftarrow>a. (v - m1) * (v - m1)) / Fin (of_nat (h - 1));
          v2 = Fin (\<Sum>v\<leftarrow>b. (v - m2) * (v - m2)) / Fin (of_nat d);
          W = (v1 + v2) / Fin 2;
          mu = (m1 + m2) / 2;
          B = Fin (of_nat h * ((m1 - mu) * (m1 - mu) + (m2 - mu) * (m2 - mu)));
          V = Fin (of_nat (h - 1) / of_nat h) * W + Fin (1 / of_nat h) * B
      in fsqrt (V / W))"
proof -
  have mu1: "mean_fl (map Fin a) = Fin m1"
    using assms(2,4) by (simp add: mean_fl_Fin)
  have mu2: "mean_fl (map Fin b) = Fin m2"
    using assms(3,5) by (simp add: mean_fl_Fin)
  have len: "length (map Fin a) = (length (map Fin a) + length (map Fin b)) div 2"
    using assms(1) by simp
  have h: "real (length a) \<noteq> 0"
    using assms(4) by simp
  show ?thesis
    unfolding split_rhat_formula_halves [OF len] Let_def mu1 mu2 sq_dev_Fin
    using h by (simp add: fl_defs)
qed

lemma rhat_trace_ec50:
  "map ec50 rhat_trace
     = map Fin (replicate 50 0) @ map Fin (replicate 25 1 @ replicate 25 3 @ [2])"
  by (simp add: rhat_trace_def theta0_def)

lemma replicate_101: "replicate 50 x @ replicate 25 x @ replicate 25 x @ [x] = replicate 101 x"
proof -
  have "replicate 50 x @ replicate 25 x @ replicate 25 x @ replicate 1 x
          = replicate (50 + (25 + (25 + 1))) x"
    by (simp only: replicate_add)
  then show ?thesis
    by simp
qed

lemma replicate_50_51: "replicate 101 x = replicate 50 x @ replicate 51 x"
proof -
  have "replicate (50 + 51) x = replicate 50 x @ replicate 51 x"
    by (simp only: replicate_add)
  then show ?thesis
    by simp
qed

lemma rhat_trace_const:
  "map floor_p rhat_trace = map Fin (replicate 50 0.25) @ map Fin (replicate 51 0.25)"
  "map ceiling_p rhat_trace = map Fin (replicate 50 0.5) @ map Fin (replicate 51 0.5)"
  "map slope rhat_trace = map Fin (replicate 50 1) @ map Fin (replicate 51 1)"
  by (simp_all add: rhat_trace_def theta0_def replicate_101 replicate_50_51)

lemma split_rhat_const:
  "split_rhat_formula 50 (map Fin (replicate 50 c) @ map Fin (replicate 51 c)) = NaN"
  by (subst split_rhat_formula_Fin [where ?m1.0 = c and ?m2.0 = c])
     (simp_all add: Let_def sum_list_replicate fl_defs)

lemma split_rhat_code_value:
  "split_rhat_formula 50
     (map Fin (replicate 50 0) @ map Fin (replicate 25 1 @ replicate 25 3 @ [2]))
     = Fin (sqrt (249 / 50))"
  by (subst split_rhat_formula_Fin [where ?m1.0 = 0 and ?m2.0 = 2])
     (simp_all add: Let_def sum_list_replicate fl_defs)

lemma split_rhat_spec_value:
  "split_rhat_formula 49
     (map Fin (replicate 50 0) @ map Fin (replicate 25 1 @ replicate 25 3 @ [2]))
     = Fin (sqrt (49 / 10))"
  by (subst split_rhat_formula_Fin [where ?m1.0 = 0 and ?m2.0 = 2])
     (simp_all add: Let_def sum_list_replicate fl_defs)

lemma rhat_trace_values:
  "split_rhat_formula 50 (map floor_p rhat_trace) = NaN"
  "split_rhat_formula 50 (map ceiling_p rhat_trace) = NaN"
  "split_rhat_formula 50 (map slope rhat_trace) = NaN"
  "split_rhat_formula 50 (map ec50 rhat_trace) = Fin (sqrt (249 / 50))"
  "split_rhat_formula 49 (map ec50 rhat_trace) = Fin (sqrt (49 / 10))"
  unfolding rhat_trace_const rhat_trace_ec50
  by (rule split_rhat_const split_rhat_code_value split_rhat_spec_value)+

text \<open>
  C7 as stated fails when \<open>n\<close> is odd: on the trace of 101 samples \<open>compute_rhat\<close> returns
  \<open>sqrt (249/50)\<close> for \<open>ec50\<close>, while the formula with the divisor \<open>h - 1\<close> for both halves
  gives \<open>sqrt (49/10)\<close>.
\<close>

theorem compute_rhat_odd_count_differs:
  "compute_rhat (ensemble_with rhat_trace) 0 = Inr [NaN, NaN, Fin (sqrt (249 / 50)), NaN]
   \<and> split_rhat_spec (map ec50 (drop 0 rhat_trace)) = Fin (sqrt (49 / 10))
   \<and> sqrt (249 / 50) \<noteq> sqrt (49 / 10)"
proof -
  have len: "length rhat_trace = 101"
    by (simp add: rhat_trace_def)
  have "compute_rhat (ensemble_with rhat_trace) 0
          = Inr (map (\<lambda>f. split_rhat_amended (map f (drop (nat (sint (0 :: 32 word))) rhat_trace)))
                   [floor_p, ceiling_p, ec50, slope])"
    using compute_rhat_formula [of "ensemble_with rhat_trace" "chain_with rhat_trace" "[]" 0]
    by (simp add: ensemble_with_def chain_with_def len)
  then have "compute_rhat (ensemble_with rhat_trace) 0
               = Inr [NaN, NaN, Fin (sqrt (249 / 50)), NaN]"
    by (simp add: split_rhat_amended_def rhat_trace_values len)
  moreover have "split_rhat_spec (map ec50 (drop 0 rhat_trace)) = Fin (sqrt (49 / 10))"
    by (simp add: split_rhat_spec_def rhat_trace_values len)
  moreover have "sqrt (249 / 50) \<noteq> sqrt (49 / 10)"
    by simp
  ultimately show ?thesis
    by blast
qed

end
